theory Spec2Isabelle
  imports Complex_Main "HOL-Library.Multiset" "HOL-Library.Sublist"
begin

section \<open>Shazam-Tool: segmentation, recognition and aggregation pipeline\<close>

text \<open>
  A shallow embedding of \<^verbatim>\<open>src/shazam.py\<close>. Python exceptions are values of the type
  \<open>error\<close>; a function that can raise returns \<open>error + 'a\<close>, with \<open>Inl\<close> the raise.
\<close>

datatype error = ValueError | TypeError | KeyError | ServiceError | OSError
  | DecodeError | ExportError

subsection \<open>Windowing (\<^verbatim>\<open>segment_audio\<close>, the list of segments)\<close>

text \<open>
  \<^verbatim>\<open>SEGMENT_LENGTH = 60 * 1000\<close>. A decoded \<^verbatim>\<open>AudioSegment\<close> is modelled at the
  granularity pydub exposes to the program, the millisecond: a list with one element per
  millisecond, so that \<^verbatim>\<open>len(audio)\<close> is \<open>length\<close> and \<^verbatim>\<open>audio[i:j]\<close> is the
  Python slice, clamped at the end of the buffer.
\<close>

definition SEGMENT_LENGTH :: nat where
  "SEGMENT_LENGTH = 60 * 1000"

definition py_slice :: "'a list \<Rightarrow> nat \<Rightarrow> nat \<Rightarrow> 'a list" where
  "py_slice xs i j = drop i (take j xs)"

text \<open>
  \<^verbatim>\<open>range(start, stop, step)\<close> for a non-negative step: the loop that yields
  \<open>start, start + step, ...\<close> below \<open>stop\<close>; a step of zero raises \<^verbatim>\<open>ValueError\<close>.
\<close>

function range_from :: "nat \<Rightarrow> nat \<Rightarrow> nat \<Rightarrow> nat list" where
  "range_from i stop step =
     (if step = 0 then []
      else if i < stop then i # range_from (i + step) stop step
      else [])"
  by pat_completeness auto
termination
  by (relation "measure (\<lambda>(i, stop, step). stop - i)") auto

declare range_from.simps [simp del]

definition py_range :: "nat \<Rightarrow> nat \<Rightarrow> nat \<Rightarrow> error + nat list" where
  "py_range start stop step =
     (if step = 0 then Inl ValueError else Inr (range_from start stop step))"

text \<open>
  \<^verbatim>\<open>segments = [audio[i:i + SEGMENT_LENGTH] for i in range(0, len(audio), SEGMENT_LENGTH)]\<close>
\<close>

definition segments :: "'a list \<Rightarrow> error + 'a list list" where
  "segments audio =
     (case py_range 0 (length audio) SEGMENT_LENGTH of
        Inl e \<Rightarrow> Inl e
      | Inr starts \<Rightarrow> Inr (map (\<lambda>i. py_slice audio i (i + SEGMENT_LENGTH)) starts))"

text \<open>\<^verbatim>\<open>enumerate(segments, start=1)\<close> is \<open>enumerate 1\<close> of the list library.\<close>

definition numbered_segments :: "'a list \<Rightarrow> error + (nat \<times> 'a list) list" where
  "numbered_segments audio =
     (case segments audio of Inl e \<Rightarrow> Inl e | Inr segs \<Rightarrow> Inr (enumerate 1 segs))"

subsection \<open>Strings, numbers and paths\<close>

text \<open>
  \<^verbatim>\<open>str(n)\<close> of a non-negative integer, as the f-strings \<^verbatim>\<open>f"{idx}.mp3"\<close> and
  \<^verbatim>\<open>f"[{idx}/{total_segments}]"\<close> format it: its decimal digits, most significant
  first, with no leading zero.
\<close>

definition digit_char :: "nat \<Rightarrow> char" where
  "digit_char d = char_of (48 + d)"

function str_nat :: "nat \<Rightarrow> string" where
  "str_nat n = (if n < 10 then [digit_char n] else str_nat (n div 10) @ [digit_char (n mod 10)])"
  by pat_completeness auto
termination
  by (relation "measure (\<lambda>n. n)") auto

declare str_nat.simps [simp del]

definition is_digit :: "char \<Rightarrow> bool" where
  "is_digit c = (48 \<le> (of_char c :: nat) \<and> (of_char c :: nat) \<le> 57)"

text \<open>
  \<^verbatim>\<open>int(s)\<close> on a string of decimal digits; any other string is reported as
  \<^verbatim>\<open>ValueError\<close>. (Python's \<^verbatim>\<open>int\<close> also reads a sign, surrounding blanks and
  underscores between digits; no name written by \<^verbatim>\<open>segment_audio\<close> has them.)
\<close>

definition int_of_str :: "string \<Rightarrow> error + nat" where
  "int_of_str s =
     (if s \<noteq> [] \<and> list_all is_digit s
      then Inr (foldl (\<lambda>acc c. 10 * acc + ((of_char c :: nat) - 48)) 0 s)
      else Inl ValueError)"

text \<open>\<^verbatim>\<open>p.rfind(c)\<close>: the last position of a character, \<open>None\<close> for Python's -1.\<close>

fun rfind :: "char \<Rightarrow> string \<Rightarrow> nat option" where
  "rfind c [] = None"
| "rfind c (x # xs) =
     (case rfind c xs of
        Some i \<Rightarrow> Some (Suc i)
      | None \<Rightarrow> (if x = c then Some 0 else None))"

text \<open>
  \<^verbatim>\<open>os.path.splitext\<close> (posixpath): the extension starts at the last dot, unless that
  dot lies before the last separator or only dots precede it in the file name.
\<close>

definition splitext :: "string \<Rightarrow> string \<times> string" where
  "splitext p =
     (case rfind (CHR ''.'') p of
        None \<Rightarrow> (p, [])
      | Some dotIndex \<Rightarrow>
          (let filenameIndex = (case rfind (CHR ''/'') p of None \<Rightarrow> 0 | Some sepIndex \<Rightarrow> Suc sepIndex)
           in if filenameIndex \<le> dotIndex \<and>
                 list_ex (\<lambda>k. p ! k \<noteq> CHR ''.'') [filenameIndex..<dotIndex]
              then (take dotIndex p, drop dotIndex p)
              else (p, [])))"

text \<open>\<^verbatim>\<open>os.path.join(a, b)\<close> and \<^verbatim>\<open>os.path.basename(p)\<close> (posixpath).\<close>

definition path_join :: "string \<Rightarrow> string \<Rightarrow> string" where
  "path_join a b =
     (if b \<noteq> [] \<and> hd b = CHR ''/'' then b
      else if a = [] \<or> last a = CHR ''/'' then a @ b
      else a @ ''/'' @ b)"

definition basename :: "string \<Rightarrow> string" where
  "basename p = (case rfind (CHR ''/'') p of None \<Rightarrow> p | Some i \<Rightarrow> drop (Suc i) p)"

definition newline :: string where
  "newline = [CHR 0x0A]"

text \<open>
  The text \<^verbatim>\<open>str(e)\<close> of a caught exception, as the log messages embed it. The program
  never inspects it; the model writes the name of the exception's class.
\<close>

fun exc_text :: "error \<Rightarrow> string" where
  "exc_text ValueError = ''ValueError''"
| "exc_text TypeError = ''TypeError''"
| "exc_text KeyError = ''KeyError''"
| "exc_text ServiceError = ''ServiceError''"
| "exc_text OSError = ''OSError''"
| "exc_text DecodeError = ''DecodeError''"
| "exc_text ExportError = ''ExportError''"

subsection \<open>The environment and the observable state\<close>

text \<open>
  The collaborators of the pipeline are oracles of an environment:
  \<^item> \<open>recognize env n\<close> is what the \<open>n\<close>-th call (from 0) of \<^verbatim>\<open>shazam.recognize\<close>
    yields: an exception, a payload without \<^verbatim>\<open>'track'\<close>, or a track payload whose
    \<^verbatim>\<open>'title'\<close> and \<^verbatim>\<open>'subtitle'\<close> keys may be missing;
  \<^item> \<open>open_ok env n\<close> tells whether the \<open>n\<close>-th attempt (from 0) to open the output
    file for appending and write to it succeeds; otherwise it raises \<^verbatim>\<open>OSError\<close>;
  \<^item> \<open>from_file env f\<close> is the decoded audio of file \<open>f\<close>, \<open>None\<close> when
    \<^verbatim>\<open>AudioSegment.from_file\<close> raises;
  \<^item> \<open>export_ok env p\<close> tells whether \<^verbatim>\<open>seg.export(p)\<close> succeeds;
  \<^item> \<open>listdir env names\<close> is the order in which \<^verbatim>\<open>os.listdir\<close> returns the names of
    a directory;
  \<^item> \<open>tmp_dir env f\<close> is the name of the temporary directory created for file \<open>f\<close>.

  The world records what the program does, in order: the calls of the recognition
  service, the delays, the chunks appended to the output file, the lines logged at level
  INFO or above and the lines printed. \<^verbatim>\<open>logger.debug\<close> calls are left out.
\<close>

datatype response = Raises | NoTrack | Track "string option" "string option"

datatype level = INFO | WARNING | ERROR

datatype event =
    Recognize string
  | Sleep rat
  | Append string string
  | Log level string
  | Print string

type_synonym audio = "int list"

record env =
  recognize :: "nat \<Rightarrow> response"
  open_ok :: "nat \<Rightarrow> bool"
  from_file :: "string \<Rightarrow> audio option"
  export_ok :: "string \<Rightarrow> bool"
  listdir :: "string list \<Rightarrow> string list"
  tmp_dir :: "string \<Rightarrow> string"

record world =
  calls :: nat
  opens :: nat
  trace :: "event list"

definition emit :: "event \<Rightarrow> world \<Rightarrow> world" where
  "emit e w = w\<lparr>trace := trace w @ [e]\<rparr>"

definition logger :: "level \<Rightarrow> string \<Rightarrow> world \<Rightarrow> world" where
  "logger l msg w = emit (Log l msg) w"

definition sleep :: "rat \<Rightarrow> world \<Rightarrow> world" where
  "sleep d w = emit (Sleep d) w"

text \<open>
  Opening the file \<^verbatim>\<open>filename\<close> in mode \<^verbatim>\<open>"a"\<close> and writing one chunk: the chunk
  is appended, or \<^verbatim>\<open>OSError\<close> is raised and nothing is written.
\<close>

definition append_file :: "env \<Rightarrow> string \<Rightarrow> string \<Rightarrow> world \<Rightarrow> error + world" where
  "append_file env filename chunk w =
     (if open_ok env (opens w)
      then Inr (emit (Append filename chunk) (w\<lparr>opens := Suc (opens w)\<rparr>))
      else Inl OSError)"

text \<open>The chunks appended to a file, in order, and the lines logged.\<close>

fun appended :: "string \<Rightarrow> event list \<Rightarrow> string list" where
  "appended f [] = []"
| "appended f (Append g c # es) = (if g = f then c # appended f es else appended f es)"
| "appended f (e # es) = appended f es"

fun recognized :: "event list \<Rightarrow> string list" where
  "recognized [] = []"
| "recognized (Recognize p # es) = p # recognized es"
| "recognized (e # es) = recognized es"

fun logged :: "level \<Rightarrow> event list \<Rightarrow> string list" where
  "logged l [] = []"
| "logged l (Log k m # es) = (if k = l then m # logged l es else logged l es)"
| "logged l (e # es) = logged l es"

subsection \<open>Retry policy (\<^verbatim>\<open>get_name\<close>)\<close>

text \<open>
  The body of the \<^verbatim>\<open>try\<close> block for one response of the service: \<open>Inl\<close> is an
  exception raised inside the block (by the call, or \<^verbatim>\<open>KeyError\<close> by
  \<^verbatim>\<open>data['track']['title']\<close> or \<^verbatim>\<open>data['track']['subtitle']\<close>), \<open>Inr None\<close> is
  \<^verbatim>\<open>'track' not in data\<close>, and \<open>Inr (Some result)\<close> is
  \<^verbatim>\<open>result = f"{subtitle} - {title}"\<close>.
\<close>

fun try_recognize :: "response \<Rightarrow> error + string option" where
  "try_recognize Raises = Inl ServiceError"
| "try_recognize NoTrack = Inr None"
| "try_recognize (Track None subtitle) = Inl KeyError"
| "try_recognize (Track (Some title) None) = Inl KeyError"
| "try_recognize (Track (Some title) (Some subtitle)) = Inr (Some (subtitle @ '' - '' @ title))"

text \<open>
  \<^verbatim>\<open>for attempt in range(max_retries)\<close>, from the iteration \<open>attempt\<close> on. The result
  is \<open>None\<close> when the loop ends without a \<^verbatim>\<open>return\<close> (Python then returns
  \<^verbatim>\<open>None\<close>).
\<close>

function get_name_loop :: "env \<Rightarrow> string \<Rightarrow> int \<Rightarrow> int \<Rightarrow> world \<Rightarrow> string option \<times> world" where
  "get_name_loop env file_path max_retries attempt w =
     (if attempt < max_retries then
        (let w1 = emit (Recognize file_path) (w\<lparr>calls := Suc (calls w)\<rparr>) in
         case try_recognize (recognize env (calls w)) of
           Inr None \<Rightarrow>
             (if attempt < max_retries - 1
              then get_name_loop env file_path max_retries (attempt + 1) (sleep 2 w1)
              else (Some ''Not found'', w1))
         | Inr (Some result) \<Rightarrow> (Some result, w1)
         | Inl e \<Rightarrow>
             (if attempt < max_retries - 1
              then get_name_loop env file_path max_retries (attempt + 1) (sleep 2 w1)
              else (Some ''Not found'', w1)))
      else (None, w))"
  by pat_completeness auto
termination
  by (relation "measure (\<lambda>(env, file_path, max_retries, attempt, w). nat (max_retries - attempt))") auto

declare get_name_loop.simps [simp del]

definition get_name :: "env \<Rightarrow> string \<Rightarrow> int \<Rightarrow> world \<Rightarrow> string option \<times> world" where
  "get_name env file_path max_retries w = get_name_loop env file_path max_retries 0 w"

subsection \<open>Persistence (\<^verbatim>\<open>write_to_file\<close>)\<close>

definition write_to_file :: "env \<Rightarrow> string \<Rightarrow> string \<Rightarrow> world \<Rightarrow> world" where
  "write_to_file env data filename w =
     (if data \<noteq> ''Not found'' then
        (case append_file env filename (data @ newline) w of
           Inr w' \<Rightarrow> w'
         | Inl e \<Rightarrow>
             emit (Print (''Error writing to file '' @ filename @ '': '' @ exc_text e))
               (w\<lparr>opens := Suc (opens w)\<rparr>))
      else w)"

subsection \<open>Recognition sequencer (\<^verbatim>\<open>_recognize_segments\<close>)\<close>

text \<open>
  One iteration of the loop over \<^verbatim>\<open>enumerate(tmp_files, start=1)\<close>, on the state
  \<open>(unique_tracks, seen_tracks, world)\<close>; it also yields the \<^verbatim>\<open>track_name\<close> that
  \<^verbatim>\<open>get_name\<close> returned. The call uses the default \<^verbatim>\<open>max_retries = 3\<close>, for which
  \<^verbatim>\<open>get_name\<close> returns a string; were it to return \<^verbatim>\<open>None\<close>, every later use would
  format it as the text \<^verbatim>\<open>None\<close>. Nothing in the \<^verbatim>\<open>try\<close> block raises in this model
  (\<^verbatim>\<open>get_name\<close> and \<^verbatim>\<open>write_to_file\<close> catch their exceptions), so the handler
  \<^verbatim>\<open>except Exception\<close> of the loop has no branch here.
\<close>

type_synonym tracks = "string list \<times> string set \<times> world"

definition recognize_segment ::
  "env \<Rightarrow> string \<Rightarrow> nat \<Rightarrow> string \<Rightarrow> nat \<times> string \<Rightarrow> tracks \<Rightarrow> string \<times> tracks" where
  "recognize_segment env tmp total_segments output_filename item st =
     (case (item, st) of ((idx, file_name), (unique_tracks, seen_tracks, w)) \<Rightarrow>
        (let segment_path = path_join tmp file_name;
             (r, w1) = get_name env segment_path 3 w;
             track_name = (case r of Some s \<Rightarrow> s | None \<Rightarrow> ''None'');
             progress_str = ''['' @ str_nat idx @ ''/'' @ str_nat total_segments @ '']: '' @ track_name;
             w2 = logger INFO progress_str w1;
             (unique_tracks', seen_tracks', w3) =
               (if track_name \<noteq> ''Not found'' \<and> track_name \<notin> seen_tracks
                then (unique_tracks @ [track_name], insert track_name seen_tracks,
                      write_to_file env track_name output_filename w2)
                else (unique_tracks, seen_tracks, w2));
             w4 = (if idx < total_segments then sleep (1 / 2) w3 else w3)
         in (track_name, (unique_tracks', seen_tracks', w4))))"

fun recognize_loop ::
  "env \<Rightarrow> string \<Rightarrow> nat \<Rightarrow> string \<Rightarrow> (nat \<times> string) list \<Rightarrow> tracks \<Rightarrow> tracks" where
  "recognize_loop env tmp total_segments output_filename [] st = st"
| "recognize_loop env tmp total_segments output_filename (item # items) st =
     recognize_loop env tmp total_segments output_filename items
       (snd (recognize_segment env tmp total_segments output_filename item st))"

definition recognize_segments ::
  "env \<Rightarrow> string \<Rightarrow> string list \<Rightarrow> nat \<Rightarrow> string \<Rightarrow> tracks \<Rightarrow> tracks" where
  "recognize_segments env tmp tmp_files total_segments output_filename st =
     recognize_loop env tmp total_segments output_filename (enumerate 1 tmp_files) st"

text \<open>
  The sequence of per-segment recognition results of a run: the \<^verbatim>\<open>track_name\<close> of each
  iteration, in order.
\<close>

fun track_names ::
  "env \<Rightarrow> string \<Rightarrow> nat \<Rightarrow> string \<Rightarrow> (nat \<times> string) list \<Rightarrow> tracks \<Rightarrow> string list" where
  "track_names env tmp total_segments output_filename [] st = []"
| "track_names env tmp total_segments output_filename (item # items) st =
     fst (recognize_segment env tmp total_segments output_filename item st) #
     track_names env tmp total_segments output_filename items
       (snd (recognize_segment env tmp total_segments output_filename item st))"

subsection \<open>Windower (\<^verbatim>\<open>segment_audio\<close>)\<close>

text \<open>
  The result is the content of the output directory afterwards, as pairs of a file name
  and the segment exported to it, and the world. The exports run in a pool of worker
  threads; the executor waits for all of them, so every export that succeeds leaves its
  file, and any exception (of the decoding, or of an export) is logged by the single
  handler.
\<close>

definition segment_name :: "nat \<Rightarrow> string" where
  "segment_name idx = str_nat idx @ ''.mp3''"

definition segment_audio ::
  "env \<Rightarrow> string \<Rightarrow> string \<Rightarrow> world \<Rightarrow> (string \<times> audio) list \<times> world" where
  "segment_audio env audio_file output_directory w =
     (case from_file env audio_file of
        None \<Rightarrow>
          ([], logger ERROR (''Failed to segment audio file '' @ audio_file @ '': '' @
                 exc_text DecodeError) w)
      | Some audio \<Rightarrow>
          (case numbered_segments audio of
             Inl e \<Rightarrow>
               ([], logger ERROR (''Failed to segment audio file '' @ audio_file @ '': '' @
                      exc_text e) w)
           | Inr segs \<Rightarrow>
               (let jobs = map (\<lambda>(idx, seg). (segment_name idx, seg)) segs;
                    written = filter (\<lambda>(name, seg). export_ok env (path_join output_directory name)) jobs
                in if length written = length jobs then (written, w)
                   else (written, logger ERROR (''Failed to segment audio file '' @ audio_file @
                           '': '' @ exc_text ExportError) w))))"

subsection \<open>File pipeline (\<^verbatim>\<open>process_audio_file\<close>) and batch driver\<close>

text \<open>
  \<^verbatim>\<open>os.listdir\<close> on a directory that holds the files \<open>names\<close>: these names, in the
  order the environment chooses. An oracle that does not answer with a permutation of
  the names is not a listing; the names are then taken in the order they were written.
\<close>

definition os_listdir :: "env \<Rightarrow> string list \<Rightarrow> string list" where
  "os_listdir env names =
     (if mset (listdir env names) = mset names then listdir env names else names)"

text \<open>
  \<^verbatim>\<open>sorted(names, key=lambda x: int(os.path.splitext(x)[0]))\<close>: the keys are computed
  first (an exception of the key function propagates), then the names are sorted stably
  by their keys.
\<close>

definition sort_index :: "string \<Rightarrow> error + nat" where
  "sort_index x = int_of_str (fst (splitext x))"

fun with_keys :: "string list \<Rightarrow> error + (nat \<times> string) list" where
  "with_keys [] = Inr []"
| "with_keys (x # xs) =
     (case sort_index x of
        Inl e \<Rightarrow> Inl e
      | Inr k \<Rightarrow> (case with_keys xs of Inl e \<Rightarrow> Inl e | Inr kxs \<Rightarrow> Inr ((k, x) # kxs)))"

definition sorted_by_index :: "string list \<Rightarrow> error + string list" where
  "sorted_by_index names =
     (case with_keys names of Inl e \<Rightarrow> Inl e | Inr kxs \<Rightarrow> Inr (map snd (sort_key fst kxs)))"

text \<open>
  The function returns \<^verbatim>\<open>None\<close>; the model returns the final value of the local
  \<^verbatim>\<open>unique_tracks\<close> (the in-memory tracklist, which the summary prints) with the world.
  \<open>Inl\<close> is an exception that leaves the function.
\<close>

fun summary_lines :: "nat \<Rightarrow> string list \<Rightarrow> string list" where
  "summary_lines i [] = []"
| "summary_lines i (track # rest) =
     (''  '' @ str_nat i @ ''. '' @ track) # summary_lines (Suc i) rest"

definition log_summary :: "string list \<Rightarrow> world \<Rightarrow> world" where
  "log_summary unique_tracks w =
     (if unique_tracks \<noteq> [] then
        logger INFO ''---''
          (fold (logger INFO) (summary_lines 1 unique_tracks)
             (logger INFO (newline @ ''--- Tracklist ('' @ str_nat (length unique_tracks) @
                '' tracks) ---'') w))
      else w)"

definition file_header :: "string \<Rightarrow> string" where
  "file_header audio_file = ''===== '' @ basename audio_file @ '' ======'' @ newline"

definition process_audio_file ::
  "env \<Rightarrow> string \<Rightarrow> string \<Rightarrow> nat \<Rightarrow> nat \<Rightarrow> world \<Rightarrow> error + (string list \<times> world)" where
  "process_audio_file env audio_file output_filename file_index total_files w =
     (let w1 = (if total_files > 2
                then logger INFO (newline @ ''['' @ str_nat file_index @ ''/'' @ str_nat total_files @
                       ''] Processing file: '' @ audio_file) w
                else logger INFO (newline @ ''Processing file: '' @ audio_file) w)
      in case append_file env output_filename (file_header audio_file) w1 of
           Inl e \<Rightarrow>
             Inr ([], logger ERROR (''Error writing header for '' @ audio_file @ '': '' @ exc_text e)
                        (w1\<lparr>opens := Suc (opens w1)\<rparr>))
         | Inr w2 \<Rightarrow>
             (let tmp = tmp_dir env audio_file;
                  w3 = logger INFO ''1/4 Segmenting audio file...'' w2;
                  (dir, w4) = segment_audio env audio_file tmp w3;
                  w5 = logger INFO ''2/4 Recognizing segments...'' w4
              in case sorted_by_index (os_listdir env (map fst dir)) of
                   Inl e \<Rightarrow> Inl e
                 | Inr tmp_files \<Rightarrow>
                     (let total_segments = length tmp_files;
                          (unique_tracks, seen_tracks, w6) =
                            recognize_segments env tmp tmp_files total_segments output_filename
                              ([], {}, w5);
                          w7 = (case append_file env output_filename newline w6 of
                                  Inr w' \<Rightarrow> w'
                                | Inl e \<Rightarrow>
                                    logger ERROR (''Error writing empty line for '' @ audio_file @
                                      '': '' @ exc_text e) (w6\<lparr>opens := Suc (opens w6)\<rparr>));
                          w8 = log_summary unique_tracks w7
                      in Inr (unique_tracks,
                              logger INFO (''Successfully processed file: '' @ audio_file) w8))))"

text \<open>
  The loop of the batch driver (in \<^verbatim>\<open>process_downloads\<close> and in \<^verbatim>\<open>main\<close>):
  \<^verbatim>\<open>for idx, file_name in enumerate(mp3_files, start=1)\<close>. An exception of
  \<^verbatim>\<open>process_audio_file\<close> ends the loop.
\<close>

definition DOWNLOADS_DIR :: string where
  "DOWNLOADS_DIR = ''downloads''"

fun process_files :: "env \<Rightarrow> string \<Rightarrow> nat \<Rightarrow> (nat \<times> string) list \<Rightarrow> world \<Rightarrow> error + world" where
  "process_files env output_filename total_files [] w = Inr w"
| "process_files env output_filename total_files ((idx, file_name) # rest) w =
     (case process_audio_file env (path_join DOWNLOADS_DIR file_name) output_filename idx
             total_files w of
        Inl e \<Rightarrow> Inl e
      | Inr (unique_tracks, w') \<Rightarrow> process_files env output_filename total_files rest w')"

definition process_batch :: "env \<Rightarrow> string \<Rightarrow> string list \<Rightarrow> world \<Rightarrow> error + world" where
  "process_batch env output_filename mp3_files w =
     process_files env output_filename (length mp3_files) (enumerate 1 mp3_files) w"

subsection \<open>URL validation and dispatch (\<^verbatim>\<open>validate_url\<close>, \<^verbatim>\<open>download_from_url\<close>)\<close>

text \<open>
  \<^verbatim>\<open>urlparse\<close> is a parameter: the program reads the \<^verbatim>\<open>scheme\<close> and the
  \<^verbatim>\<open>hostname\<close> (\<^verbatim>\<open>None\<close> when the URL has none) of its result. The two downloaders
  are parameters too: they return a title or \<^verbatim>\<open>None\<close>.
\<close>

record parsed_url =
  scheme :: string
  hostname :: "string option"

definition ALLOWED_DOMAINS :: "string set" where
  "ALLOWED_DOMAINS =
     {''youtube.com'', ''www.youtube.com'', ''m.youtube.com'',
      ''youtu.be'',
      ''soundcloud.com'', ''www.soundcloud.com'', ''m.soundcloud.com''}"

definition validate_url :: "(string \<Rightarrow> parsed_url) \<Rightarrow> string \<Rightarrow> error + string" where
  "validate_url urlparse url =
     (let parsed = urlparse url in
      if scheme parsed \<notin> {''http'', ''https''} then Inl ValueError
      else if (case hostname parsed of None \<Rightarrow> True | Some h \<Rightarrow> h \<notin> ALLOWED_DOMAINS)
      then Inl ValueError
      else Inr url)"

text \<open>\<^verbatim>\<open>needle in hay\<close> on strings: \<open>needle\<close> occurs in \<open>hay\<close> as a contiguous substring.\<close>

fun contains :: "string \<Rightarrow> string \<Rightarrow> bool" where
  "contains needle [] = (needle = [])"
| "contains needle (c # hay) = (prefix needle (c # hay) \<or> contains needle hay)"

text \<open>The branch the \<^verbatim>\<open>if\<close>/\<^verbatim>\<open>elif\<close>/\<^verbatim>\<open>else\<close> chain of \<^verbatim>\<open>download_from_url\<close> takes.\<close>

datatype branch = SoundCloud | YouTube | Unsupported

definition url_branch :: "string \<Rightarrow> branch" where
  "url_branch host =
     (if contains ''soundcloud.com'' host then SoundCloud
      else if contains ''youtube.com'' host \<or> host = ''youtu.be'' then YouTube
      else Unsupported)"

definition download_from_url ::
  "(string \<Rightarrow> parsed_url) \<Rightarrow> (string \<Rightarrow> world \<Rightarrow> string option \<times> world) \<Rightarrow>
   (string \<Rightarrow> world \<Rightarrow> string option \<times> world) \<Rightarrow> string \<Rightarrow> world \<Rightarrow>
   error + (string option \<times> world)" where
  "download_from_url urlparse download_soundcloud download_youtube url w =
     (let w1 = logger INFO ''Starting download...'' w in
      case validate_url urlparse url of
        Inl e \<Rightarrow> Inl e
      | Inr u \<Rightarrow>
          (case hostname (urlparse url) of
             None \<Rightarrow> Inl TypeError
           | Some host \<Rightarrow>
               (case url_branch host of
                  SoundCloud \<Rightarrow>
                    Inr (download_soundcloud url (logger INFO ''SoundCloud URL detected'' w1))
                | YouTube \<Rightarrow>
                    Inr (download_youtube url (logger INFO ''YouTube URL detected'' w1))
                | Unsupported \<Rightarrow>
                    Inr (None, logger ERROR
                      ''Unsupported URL format. Please provide a YouTube or SoundCloud link.'' w1))))"

subsection \<open>Notions of the specification\<close>

text \<open>The number of windows of length \<open>w\<close> needed to cover \<open>d\<close>: \<open>ceil(d / w)\<close>.\<close>

definition ceil_div :: "nat \<Rightarrow> nat \<Rightarrow> nat" where
  "ceil_div d w = (d + w - 1) div w"

text \<open>
  The distinct elements of a sequence in the order of their first occurrence: the
  element at position \<open>i\<close> is kept when it does not occur before \<open>i\<close>.
\<close>

definition first_seen :: "'a list \<Rightarrow> 'a list" where
  "first_seen xs = map (\<lambda>i. xs ! i) (filter (\<lambda>i. xs ! i \<notin> set (take i xs)) [0..<length xs])"

text \<open>
  An attempt of \<^verbatim>\<open>get_name\<close> fails when the service raises, returns no track, or
  returns a track payload that lacks a key: every outcome but a canonical track string.
\<close>

definition failed :: "response \<Rightarrow> bool" where
  "failed r = (case try_recognize r of Inr (Some result) \<Rightarrow> False | Inr None \<Rightarrow> True | Inl e \<Rightarrow> True)"

text \<open>
  What \<open>n\<close> attempts on one file look like in the trace: \<open>n\<close> calls of the service with
  a delay of 2 between consecutive calls.
\<close>

fun retry_trace :: "string \<Rightarrow> nat \<Rightarrow> event list" where
  "retry_trace p 0 = []"
| "retry_trace p (Suc 0) = [Recognize p]"
| "retry_trace p (Suc (Suc n)) = Recognize p # Sleep 2 # retry_trace p (Suc n)"

text \<open>
  The elements of a sequence that are not in \<open>S\<close> and have not occurred before, in order.
\<close>

fun fresh :: "'a set \<Rightarrow> 'a list \<Rightarrow> 'a list" where
  "fresh S [] = []"
| "fresh S (x # xs) = (if x \<in> S then fresh S xs else x # fresh (insert x S) xs)"

text \<open>
  The progress line of a segment and the pacing delay after it, as
  \<^verbatim>\<open>_recognize_segments\<close> writes them.
\<close>

definition progress :: "nat \<Rightarrow> nat \<Rightarrow> string \<Rightarrow> string" where
  "progress idx total_segments track_name =
     ''['' @ str_nat idx @ ''/'' @ str_nat total_segments @ '']: '' @ track_name"

definition pace :: "nat \<Rightarrow> nat \<Rightarrow> world \<Rightarrow> world" where
  "pace idx total_segments w = (if idx < total_segments then sleep (1 / 2) w else w)"

text \<open>
  The indices of the segments of a file that materialize in its temporary directory: none
  when the file cannot be decoded, else those of the \<open>ceil(D / W)\<close> segments whose
  export succeeds.
\<close>

definition exported :: "env \<Rightarrow> string \<Rightarrow> nat list" where
  "exported env audio_file =
     (case from_file env audio_file of
        None \<Rightarrow> []
      | Some audio \<Rightarrow>
          filter (\<lambda>i. export_ok env (path_join (tmp_dir env audio_file) (segment_name i)))
            [1..<Suc (ceil_div (length audio) SEGMENT_LENGTH)])"

text \<open>
  The stages of \<^verbatim>\<open>process_audio_file\<close> around the sequencer, for a header that is
  written: the world when the sequencer starts, and the world when the function returns,
  from the world \<open>w6\<close> in which the sequencer ended.
\<close>

definition start_log :: "string \<Rightarrow> nat \<Rightarrow> nat \<Rightarrow> string" where
  "start_log audio_file file_index total_files =
     (if total_files > 2
      then newline @ ''['' @ str_nat file_index @ ''/'' @ str_nat total_files @
             ''] Processing file: '' @ audio_file
      else newline @ ''Processing file: '' @ audio_file)"

definition before_recognition :: "env \<Rightarrow> string \<Rightarrow> string \<Rightarrow> nat \<Rightarrow> nat \<Rightarrow> world \<Rightarrow> world" where
  "before_recognition env audio_file output_filename file_index total_files w =
     logger INFO ''2/4 Recognizing segments...''
       (snd (segment_audio env audio_file (tmp_dir env audio_file)
          (logger INFO ''1/4 Segmenting audio file...''
             (emit (Append output_filename (file_header audio_file))
                ((logger INFO (start_log audio_file file_index total_files) w)
                   \<lparr>opens := Suc (opens w)\<rparr>)))))"

definition after_recognition :: "env \<Rightarrow> string \<Rightarrow> string \<Rightarrow> string list \<Rightarrow> world \<Rightarrow> world" where
  "after_recognition env audio_file output_filename unique_tracks w6 =
     logger INFO (''Successfully processed file: '' @ audio_file)
       (log_summary unique_tracks
          (if open_ok env (opens w6)
           then emit (Append output_filename newline) (w6\<lparr>opens := Suc (opens w6)\<rparr>)
           else logger ERROR (''Error writing empty line for '' @ audio_file @ '': '' @
                  exc_text OSError) (w6\<lparr>opens := Suc (opens w6)\<rparr>)))"

text \<open>The index a file name sorts by (0 when it has none).\<close>

definition index_key :: "string \<Rightarrow> nat" where
  "index_key x = (case sort_index x of Inr k \<Rightarrow> k | Inl e \<Rightarrow> 0)"

text \<open>
  The section of the output file for one input file: its header line, one line per track
  of its tracklist, and the blank separator line. The in-memory tracklists of the files of
  a batch are the lists \<^verbatim>\<open>unique_tracks\<close> that the calls of \<^verbatim>\<open>process_audio_file\<close>
  end with, file by file.
\<close>

definition file_section :: "string \<Rightarrow> string list \<Rightarrow> string list" where
  "file_section audio_file unique_tracks =
     file_header audio_file # map (\<lambda>track. track @ newline) unique_tracks @ [newline]"


text \<open>An initial world: nothing has happened yet.\<close>

definition world0 :: world where
  "world0 = \<lparr>calls = 0, opens = 0, trace = []\<rparr>"

text \<open>
  Example environments: the recognition service answers by the given function, every
  write succeeds (or is decided by the given function), the audio of every file is the given
  buffer, every export succeeds and \<^verbatim>\<open>os.listdir\<close> returns the names in reverse order.
\<close>

definition env_of :: "(nat \<Rightarrow> response) \<Rightarrow> (nat \<Rightarrow> bool) \<Rightarrow> audio option \<Rightarrow> env" where
  "env_of service writes buffer =
     \<lparr>recognize = service, open_ok = writes, from_file = (\<lambda>f. buffer),
      export_ok = (\<lambda>p. True), listdir = rev, tmp_dir = (\<lambda>f. ''/tmp/shazam_x'')\<rparr>"

section \<open>Properties\<close>

subsection \<open>Windowing\<close>

lemma ceil_div_step:
  assumes "0 < step" "i < stop"
  shows "(stop - i + step - 1) div step = Suc ((stop - (i + step) + step - 1) div step)"
proof (cases "i + step \<le> stop")
  case True
  define x where "x = stop - (i + step) + step - 1"
  have "stop - i + step - 1 = x + step"
    unfolding x_def using True assms by linarith
  moreover have "(x + step) div step = Suc (x div step)"
    using assms(1) by simp
  ultimately show ?thesis unfolding x_def by (simp only:)
next
  case False
  define y where "y = stop - i + step - 1"
  have a: "stop - (i + step) + step - 1 = step - 1" using False by linarith
  have b: "step \<le> y" unfolding y_def using assms by linarith
  have c: "y < step + step" unfolding y_def using False assms by linarith
  have "y div step = 1"
    using b c assms(1) by (intro div_nat_eqI) simp_all
  moreover have "(step - 1) div step = 0" using assms by simp
  ultimately show ?thesis unfolding y_def a by (simp only: One_nat_def)
qed

lemma map_shift_upt:
  "(i::nat) # map (\<lambda>k. i + step + k * step) [0..<m] = map (\<lambda>k. i + k * step) [0..<Suc m]"
proof -
  have "[0..<Suc m] = 0 # map Suc [0..<m]"
    by (simp only: map_Suc_upt upt_conv_Cons[of 0 "Suc m"] zero_less_Suc if_True)
  then have "map (\<lambda>k. i + k * step) [0..<Suc m] = i # map (\<lambda>k. i + Suc k * step) [0..<m]"
    by (simp add: comp_def del: upt_Suc)
  also have "\<dots> = i # map (\<lambda>k. i + step + k * step) [0..<m]"
    by simp
  finally show ?thesis by (simp only:)
qed

lemma range_from_eq:
  "0 < step \<Longrightarrow>
   range_from i stop step = map (\<lambda>k. i + k * step) [0..<(stop - i + step - 1) div step]"
proof (induction i stop step rule: range_from.induct)
  case (1 i stop step)
  show ?case
  proof (cases "i < stop")
    case True
    let ?n = "(stop - i + step - 1) div step"
    let ?m = "(stop - (i + step) + step - 1) div step"
    have n: "?n = Suc ?m" using ceil_div_step "1.prems" True by blast
    have ih: "range_from (i + step) stop step = map (\<lambda>k. i + step + k * step) [0..<?m]"
      using "1.IH" True "1.prems" by blast
    have "range_from i stop step = i # range_from (i + step) stop step"
      using True "1.prems" by (subst range_from.simps) simp
    also have "\<dots> = i # map (\<lambda>k. i + step + k * step) [0..<?m]" by (simp only: ih)
    also have "\<dots> = map (\<lambda>k. i + k * step) [0..<Suc ?m]"
      by (rule map_shift_upt)
    finally show ?thesis by (simp only: n)
  next
    case False
    then have "(stop - i + step - 1) div step = 0" using "1.prems" by simp
    moreover have "range_from i stop step = []"
      using False by (subst range_from.simps) simp
    ultimately show ?thesis by simp
  qed
qed





lemma SEGMENT_LENGTH_pos: "0 < SEGMENT_LENGTH"
  by (simp add: SEGMENT_LENGTH_def)

lemma segments_eq:
  "segments audio =
     Inr (map (\<lambda>k. py_slice audio (k * SEGMENT_LENGTH) (k * SEGMENT_LENGTH + SEGMENT_LENGTH))
            [0..<ceil_div (length audio) SEGMENT_LENGTH])"
proof -
  have "range_from 0 (length audio) SEGMENT_LENGTH =
          map (\<lambda>k. k * SEGMENT_LENGTH) [0..<ceil_div (length audio) SEGMENT_LENGTH]"
    using range_from_eq[OF SEGMENT_LENGTH_pos, of 0 "length audio"]
    by (simp add: ceil_div_def)
  then show ?thesis
    using SEGMENT_LENGTH_pos by (simp add: segments_def py_range_def comp_def)
qed





subsection \<open>URL dispatch\<close>

lemma contains_allowed:
  "h \<in> ALLOWED_DOMAINS \<Longrightarrow>
     contains ''soundcloud.com'' h \<or> contains ''youtube.com'' h \<or> h = ''youtu.be''"
  unfolding ALLOWED_DOMAINS_def by (elim insertE emptyE) simp_all

lemma url_branch_allowed: "h \<in> ALLOWED_DOMAINS \<Longrightarrow> url_branch h \<noteq> Unsupported"
  using contains_allowed[of h] by (auto simp: url_branch_def)

text \<open>
  Claim C10. For a URL that \<^verbatim>\<open>validate_url\<close> accepts (scheme \<^verbatim>\<open>http\<close> or
  \<^verbatim>\<open>https\<close>, host name in the allowlist), the dispatch of \<^verbatim>\<open>download_from_url\<close>
  takes the SoundCloud branch or the YouTube branch, never the final
  \<^verbatim>\<open>Unsupported URL format\<close> branch: the host name contains \<^verbatim>\<open>soundcloud.com\<close>,
  contains \<^verbatim>\<open>youtube.com\<close>, or is \<^verbatim>\<open>youtu.be\<close>.
\<close>

theorem validated_url_dispatch:
  assumes "validate_url urlparse url = Inr u"
  shows "\<exists>host. hostname (urlparse url) = Some host
      \<and> host \<in> ALLOWED_DOMAINS
      \<and> scheme (urlparse url) \<in> {''http'', ''https''}
      \<and> (contains ''soundcloud.com'' host \<or> contains ''youtube.com'' host \<or> host = ''youtu.be'')
      \<and> url_branch host \<noteq> Unsupported
      \<and> download_from_url urlparse download_soundcloud download_youtube url w =
          (if contains ''soundcloud.com'' host
           then Inr (download_soundcloud url
                  (logger INFO ''SoundCloud URL detected'' (logger INFO ''Starting download...'' w)))
           else Inr (download_youtube url
                  (logger INFO ''YouTube URL detected'' (logger INFO ''Starting download...'' w))))"
proof -
  from assms have sch: "scheme (urlparse url) \<in> {''http'', ''https''}"
    by (auto simp: validate_url_def Let_def split: if_splits)
  from assms obtain host where h: "hostname (urlparse url) = Some host" "host \<in> ALLOWED_DOMAINS"
    by (auto simp: validate_url_def Let_def split: if_splits option.splits)
  note c = contains_allowed[OF h(2)]
  note b = url_branch_allowed[OF h(2)]
  have "download_from_url urlparse download_soundcloud download_youtube url w =
          (if contains ''soundcloud.com'' host
           then Inr (download_soundcloud url
                  (logger INFO ''SoundCloud URL detected'' (logger INFO ''Starting download...'' w)))
           else Inr (download_youtube url
                  (logger INFO ''YouTube URL detected'' (logger INFO ''Starting download...'' w))))"
    using assms h c by (auto simp: download_from_url_def url_branch_def Let_def)
  with sch h c b show ?thesis by (intro exI[of _ host]) simp
qed

text \<open>The theorem at a YouTube URL.\<close>

theorem validated_url_dispatch_witness:
  "validate_url (\<lambda>u. \<lparr>scheme = ''https'', hostname = Some ''www.youtube.com''\<rparr>)
      ''https://www.youtube.com/watch?v=abc'' = Inr ''https://www.youtube.com/watch?v=abc''
   \<and> url_branch ''www.youtube.com'' = YouTube
   \<and> download_from_url (\<lambda>u. \<lparr>scheme = ''https'', hostname = Some ''www.youtube.com''\<rparr>)
        (\<lambda>u w. (Some ''a track'', w)) (\<lambda>u w. (Some ''a video'', w))
        ''https://www.youtube.com/watch?v=abc'' world0 =
      Inr (Some ''a video'',
           logger INFO ''YouTube URL detected'' (logger INFO ''Starting download...'' world0))"
proof -
  let ?parse = "\<lambda>u::string. \<lparr>scheme = ''https'', hostname = Some ''www.youtube.com''\<rparr>"
  let ?url = "''https://www.youtube.com/watch?v=abc''"
  have v: "validate_url ?parse ?url = Inr ?url"
    by (simp add: validate_url_def ALLOWED_DOMAINS_def)
  have b: "url_branch ''www.youtube.com'' = YouTube"
    by (simp add: url_branch_def)
  from validated_url_dispatch[OF v, of "\<lambda>u w. (Some ''a track'', w)" "\<lambda>u w. (Some ''a video'', w)" world0]
  have "download_from_url ?parse (\<lambda>u w. (Some ''a track'', w)) (\<lambda>u w. (Some ''a video'', w)) ?url world0 =
      Inr (Some ''a video'',
           logger INFO ''YouTube URL detected'' (logger INFO ''Starting download...'' world0))"
    by simp
  with v b show ?thesis by simp
qed

subsection \<open>Retry policy\<close>

lemma emit_simps [simp]:
  "calls (emit e w) = calls w" "opens (emit e w) = opens w" "trace (emit e w) = trace w @ [e]"
  by (simp_all add: emit_def)

lemma sleep_simps [simp]:
  "calls (sleep d w) = calls w" "opens (sleep d w) = opens w"
  "trace (sleep d w) = trace w @ [Sleep d]"
  by (simp_all add: sleep_def)

lemma logger_simps [simp]:
  "calls (logger l m w) = calls w" "opens (logger l m w) = opens w"
  "trace (logger l m w) = trace w @ [Log l m]"
  by (simp_all add: logger_def)

lemma world_eqI:
  "calls w = calls w' \<Longrightarrow> opens w = opens w' \<Longrightarrow> trace w = trace w' \<Longrightarrow> w = (w' :: world)"
  by simp

lemma failed_cases:
  "failed r \<Longrightarrow> try_recognize r = Inr None \<or> (\<exists>e. try_recognize r = Inl e)"
  by (auto simp: failed_def split: sum.splits option.splits)

lemma try_recognize_Some:
  "try_recognize r = Inr (Some s) \<longleftrightarrow> (\<exists>title subtitle. r = Track (Some title) (Some subtitle) \<and> s = subtitle @ '' - '' @ title)"
  by (cases r rule: try_recognize.cases) auto

lemma retry_trace_Suc: "0 < n \<Longrightarrow> retry_trace p (Suc n) = Recognize p # Sleep 2 # retry_trace p n"
  by (cases n) simp_all

text \<open>The loop when the attempt \<open>j\<close> steps ahead is the first to succeed.\<close>

lemma get_name_loop_success:
  "attempt + int j < max_retries \<Longrightarrow>
   (\<forall>i < j. failed (recognize env (calls w + i))) \<Longrightarrow>
   try_recognize (recognize env (calls w + j)) = Inr (Some result) \<Longrightarrow>
   get_name_loop env p max_retries attempt w =
     (Some result, w\<lparr>calls := calls w + Suc j, trace := trace w @ retry_trace p (Suc j)\<rparr>)"
proof (induction j arbitrary: attempt w)
  case 0
  then show ?case
    by (subst get_name_loop.simps) (simp add: emit_def)
next
  case (Suc j)
  let ?w1 = "emit (Recognize p) (w\<lparr>calls := Suc (calls w)\<rparr>)"
  have f0: "failed (recognize env (calls w))" using Suc.prems(2) by (metis add_0_right zero_less_Suc)
  have lt: "attempt < max_retries" "attempt < max_retries - 1" using Suc.prems(1) by simp_all
  have step: "get_name_loop env p max_retries attempt w =
                get_name_loop env p max_retries (attempt + 1) (sleep 2 ?w1)"
    using failed_cases[OF f0] lt
    by (subst get_name_loop.simps) (auto simp: Let_def)
  have "get_name_loop env p max_retries (attempt + 1) (sleep 2 ?w1) =
          (Some result, (sleep 2 ?w1)\<lparr>calls := calls (sleep 2 ?w1) + Suc j,
                          trace := trace (sleep 2 ?w1) @ retry_trace p (Suc j)\<rparr>)"
  proof (rule Suc.IH)
    show "attempt + 1 + int j < max_retries" using Suc.prems(1) by simp
    show "\<forall>i<j. failed (recognize env (calls (sleep 2 ?w1) + i))"
      using Suc.prems(2) by (auto simp: less_Suc_eq_0_disj)
    show "try_recognize (recognize env (calls (sleep 2 ?w1) + j)) = Inr (Some result)"
      using Suc.prems(3) by simp
  qed
  also have "(sleep 2 ?w1)\<lparr>calls := calls (sleep 2 ?w1) + Suc j,
                          trace := trace (sleep 2 ?w1) @ retry_trace p (Suc j)\<rparr> =
        w\<lparr>calls := calls w + Suc (Suc j), trace := trace w @ retry_trace p (Suc (Suc j))\<rparr>"
    by (simp add: sleep_def emit_def)
  finally show ?case using step by simp
qed

text \<open>The loop when the \<open>n\<close> attempts that remain all fail.\<close>

lemma get_name_loop_exhausted:
  "int (Suc n) = max_retries - attempt \<Longrightarrow>
   (\<forall>i < Suc n. failed (recognize env (calls w + i))) \<Longrightarrow>
   get_name_loop env p max_retries attempt w =
     (Some ''Not found'', w\<lparr>calls := calls w + Suc n, trace := trace w @ retry_trace p (Suc n)\<rparr>)"
proof (induction n arbitrary: attempt w)
  case 0
  have f0: "failed (recognize env (calls w))" using 0(2) by simp
  have "attempt < max_retries" "\<not> attempt < max_retries - 1" using 0(1) by simp_all
  then show ?case
    using failed_cases[OF f0]
    by (subst get_name_loop.simps) (auto simp: Let_def emit_def)
next
  case (Suc n)
  let ?w1 = "emit (Recognize p) (w\<lparr>calls := Suc (calls w)\<rparr>)"
  have f0: "failed (recognize env (calls w))" using Suc.prems(2) by (metis add_0_right zero_less_Suc)
  have lt: "attempt < max_retries" "attempt < max_retries - 1" using Suc.prems(1) by simp_all
  have step: "get_name_loop env p max_retries attempt w =
                get_name_loop env p max_retries (attempt + 1) (sleep 2 ?w1)"
    using failed_cases[OF f0] lt
    by (subst get_name_loop.simps) (auto simp: Let_def)
  have "get_name_loop env p max_retries (attempt + 1) (sleep 2 ?w1) =
          (Some ''Not found'', (sleep 2 ?w1)\<lparr>calls := calls (sleep 2 ?w1) + Suc n,
                          trace := trace (sleep 2 ?w1) @ retry_trace p (Suc n)\<rparr>)"
  proof (rule Suc.IH)
    show "int (Suc n) = max_retries - (attempt + 1)" using Suc.prems(1) by simp
    show "\<forall>i<Suc n. failed (recognize env (calls (sleep 2 ?w1) + i))"
    proof (intro allI impI)
      fix i assume "i < Suc n"
      then have "Suc i < Suc (Suc n)" by simp
      with Suc.prems(2) have "failed (recognize env (calls w + Suc i))" by blast
      then show "failed (recognize env (calls (sleep 2 ?w1) + i))" by simp
    qed
  qed
  also have "(sleep 2 ?w1)\<lparr>calls := calls (sleep 2 ?w1) + Suc n,
                          trace := trace (sleep 2 ?w1) @ retry_trace p (Suc n)\<rparr> =
        w\<lparr>calls := calls w + Suc (Suc n), trace := trace w @ retry_trace p (Suc (Suc n))\<rparr>"
    by (simp add: sleep_def emit_def)
  finally show ?case using step by simp
qed

lemma recognized_retry_trace: "recognized (retry_trace p n) = replicate n p"
  by (induction p n rule: retry_trace.induct) simp_all

lemma not_failed: "\<not> failed r \<Longrightarrow> \<exists>s. try_recognize r = Inr (Some s)"
  by (auto simp: failed_def split: sum.splits option.splits)

text \<open>
  Claim C2. For every \<open>max_retries \<ge> 1\<close>: when every call of the recognition service
  fails, \<^verbatim>\<open>get_name\<close> makes exactly \<open>max_retries\<close> calls, with a delay of 2 between
  consecutive calls, and returns \<^verbatim>\<open>"Not found"\<close>; when the service first succeeds at
  the \<open>k\<close>-th call, \<open>k \<le> max_retries\<close>, \<^verbatim>\<open>get_name\<close> makes exactly \<open>k\<close> calls and
  returns the canonical string \<^verbatim>\<open>"{subtitle} - {title}"\<close>. The trace \<open>retry_trace p n\<close>
  holds \<open>n\<close> calls.
\<close>

theorem get_name_attempts:
  assumes "1 \<le> max_retries"
  shows "((\<forall>i < nat max_retries. failed (recognize env (calls w + i))) \<longrightarrow>
            get_name env p max_retries w =
              (Some ''Not found'',
               w\<lparr>calls := calls w + nat max_retries,
                 trace := trace w @ retry_trace p (nat max_retries)\<rparr>))
       \<and> (\<forall>k title subtitle.
            1 \<le> k \<and> int k \<le> max_retries
            \<and> (\<forall>i < k - 1. failed (recognize env (calls w + i)))
            \<and> recognize env (calls w + (k - 1)) = Track (Some title) (Some subtitle) \<longrightarrow>
            get_name env p max_retries w =
              (Some (subtitle @ '' - '' @ title),
               w\<lparr>calls := calls w + k, trace := trace w @ retry_trace p k\<rparr>))
       \<and> (\<forall>n. recognized (retry_trace p n) = replicate n p)"
proof (intro conjI allI impI)
  assume all: "\<forall>i < nat max_retries. failed (recognize env (calls w + i))"
  obtain n where n: "nat max_retries = Suc n" using assms by (cases "nat max_retries") auto
  then have "int (Suc n) = max_retries - 0" using assms by linarith
  from get_name_loop_exhausted[OF this, of env w p] all
  show "get_name env p max_retries w =
          (Some ''Not found'',
           w\<lparr>calls := calls w + nat max_retries, trace := trace w @ retry_trace p (nat max_retries)\<rparr>)"
    unfolding get_name_def n by simp
next
  fix k title subtitle
  assume h: "1 \<le> k \<and> int k \<le> max_retries
            \<and> (\<forall>i < k - 1. failed (recognize env (calls w + i)))
            \<and> recognize env (calls w + (k - 1)) = Track (Some title) (Some subtitle)"
  then obtain j where j: "k = Suc j" by (cases k) auto
  have "0 + int j < max_retries" using h j by simp
  moreover have "\<forall>i < j. failed (recognize env (calls w + i))" using h j by simp
  moreover have "try_recognize (recognize env (calls w + j)) = Inr (Some (subtitle @ '' - '' @ title))"
    using h j by simp
  ultimately show "get_name env p max_retries w =
      (Some (subtitle @ '' - '' @ title), w\<lparr>calls := calls w + k, trace := trace w @ retry_trace p k\<rparr>)"
    unfolding get_name_def j by (rule get_name_loop_success)
next
  fix n show "recognized (retry_trace p n) = replicate n p" by (rule recognized_retry_trace)
qed

text \<open>
  The theorem at \<open>max_retries = 3\<close>: a service that never finds a track, and one that
  raises once and then answers with the track Blue by Joni.
\<close>

theorem get_name_attempts_witness:
  "get_name (env_of (\<lambda>n. NoTrack) (\<lambda>n. True) None) ''1.mp3'' 3 world0 =
     (Some ''Not found'',
      \<lparr>calls = 3, opens = 0,
       trace = [Recognize ''1.mp3'', Sleep 2, Recognize ''1.mp3'', Sleep 2, Recognize ''1.mp3'']\<rparr>)
   \<and> get_name (env_of (\<lambda>n. if n < 1 then Raises else Track (Some ''Blue'') (Some ''Joni''))
        (\<lambda>n. True) None) ''1.mp3'' 3 world0 =
     (Some ''Joni - Blue'',
      \<lparr>calls = 2, opens = 0, trace = [Recognize ''1.mp3'', Sleep 2, Recognize ''1.mp3'']\<rparr>)"
proof -
  let ?e1 = "env_of (\<lambda>n. NoTrack) (\<lambda>n. True) None"
  let ?e2 = "env_of (\<lambda>n. if n < 1 then Raises else Track (Some ''Blue'') (Some ''Joni'')) (\<lambda>n. True) None"
  have m: "(1::int) \<le> 3" by simp
  have three: "nat 3 = Suc (Suc (Suc 0))" by simp
  have a: "get_name ?e1 ''1.mp3'' 3 world0 =
     (Some ''Not found'',
      \<lparr>calls = 3, opens = 0,
       trace = [Recognize ''1.mp3'', Sleep 2, Recognize ''1.mp3'', Sleep 2, Recognize ''1.mp3'']\<rparr>)"
    using get_name_attempts[OF m, of ?e1 world0 "''1.mp3''"]
    by (simp add: env_of_def failed_def world0_def three numeral_3_eq_3)
  have b: "get_name ?e2 ''1.mp3'' 3 world0 =
     (Some ''Joni - Blue'',
      \<lparr>calls = 2, opens = 0, trace = [Recognize ''1.mp3'', Sleep 2, Recognize ''1.mp3'']\<rparr>)"
  proof -
    have "1 \<le> (2::nat) \<and> int 2 \<le> 3
            \<and> (\<forall>i < 2 - 1. failed (recognize ?e2 (calls world0 + i)))
            \<and> recognize ?e2 (calls world0 + (2 - 1)) = Track (Some ''Blue'') (Some ''Joni'')"
      by (simp add: env_of_def failed_def world0_def)
    with get_name_attempts[OF m, of ?e2 world0 "''1.mp3''"]
    have "get_name ?e2 ''1.mp3'' 3 world0 =
              (Some (''Joni'' @ '' - '' @ ''Blue''),
               world0\<lparr>calls := calls world0 + 2, trace := trace world0 @ retry_trace ''1.mp3'' 2\<rparr>)"
      by blast
    then show ?thesis by (simp add: world0_def numeral_2_eq_2)
  qed
  from a b show ?thesis by simp
qed

text \<open>
  Claim C9. For every \<open>max_retries \<ge> 1\<close> and every behaviour of the service,
  \<^verbatim>\<open>get_name\<close> returns a string, the sentinel \<^verbatim>\<open>"Not found"\<close> or a canonical track
  string; every exception of an attempt is caught inside the loop, so the result carries
  no error. The precondition is needed: for \<open>max_retries \<le> 0\<close> the loop body never runs
  and the function returns \<^verbatim>\<open>None\<close>.
\<close>

theorem get_name_total:
  "(1 \<le> max_retries \<longrightarrow>
      (\<exists>s w'. get_name env p max_retries w = (Some s, w')
         \<and> (s = ''Not found'' \<or> (\<exists>title subtitle. s = subtitle @ '' - '' @ title))))
   \<and> (max_retries \<le> 0 \<longrightarrow> get_name env p max_retries w = (None, w))"
proof (intro conjI impI)
  assume m: "1 \<le> max_retries"
  obtain n where n: "nat max_retries = Suc n" using m by (cases "nat max_retries") auto
  then have sn: "int (Suc n) = max_retries - 0" using m by linarith
  show "\<exists>s w'. get_name env p max_retries w = (Some s, w')
         \<and> (s = ''Not found'' \<or> (\<exists>title subtitle. s = subtitle @ '' - '' @ title))"
  proof (cases "\<forall>i < Suc n. failed (recognize env (calls w + i))")
    case True
    from get_name_loop_exhausted[OF sn True, of p] show ?thesis
      unfolding get_name_def by blast
  next
    case False
    define j where "j = (LEAST i. \<not> failed (recognize env (calls w + i)))"
    from False obtain i0 where i0: "i0 < Suc n" "\<not> failed (recognize env (calls w + i0))" by blast
    have nf: "\<not> failed (recognize env (calls w + j))"
      unfolding j_def using i0(2) by (rule LeastI)
    have "j \<le> i0" unfolding j_def using i0(2) by (rule Least_le)
    then have jn: "0 + int j < max_retries" using i0(1) sn by linarith
    have before: "\<forall>i < j. failed (recognize env (calls w + i))"
      unfolding j_def using not_less_Least by blast
    from not_failed[OF nf] obtain s where s: "try_recognize (recognize env (calls w + j)) = Inr (Some s)"
      by blast
    then obtain title subtitle where "s = subtitle @ '' - '' @ title"
      unfolding try_recognize_Some by blast
    with get_name_loop_success[OF jn before s, of p] show ?thesis
      unfolding get_name_def by blast
  qed
next
  assume "max_retries \<le> 0"
  then show "get_name env p max_retries w = (None, w)"
    unfolding get_name_def by (subst get_name_loop.simps) simp
qed

text \<open>The theorem at \<open>max_retries = 1\<close> and at \<open>max_retries = 0\<close>, with a service that raises.\<close>

theorem get_name_total_witness:
  "(\<exists>s w'. get_name (env_of (\<lambda>n. Raises) (\<lambda>n. True) None) ''1.mp3'' 1 world0 = (Some s, w')
         \<and> (s = ''Not found'' \<or> (\<exists>title subtitle. s = subtitle @ '' - '' @ title)))
   \<and> get_name (env_of (\<lambda>n. Raises) (\<lambda>n. True) None) ''1.mp3'' 0 world0 = (None, world0)"
  using get_name_total[of 1 "env_of (\<lambda>n. Raises) (\<lambda>n. True) None" "''1.mp3''" world0]
    get_name_total[of 0 "env_of (\<lambda>n. Raises) (\<lambda>n. True) None" "''1.mp3''" world0]
  by simp

subsection \<open>Recognition sequencer: the tracklist\<close>

lemma appended_append [simp]: "appended f (xs @ ys) = appended f xs @ appended f ys"
  by (induction f xs rule: appended.induct) simp_all

lemma recognized_append [simp]: "recognized (xs @ ys) = recognized xs @ recognized ys"
  by (induction xs rule: recognized.induct) simp_all

lemma logged_append [simp]: "logged l (xs @ ys) = logged l xs @ logged l ys"
  by (induction l xs rule: logged.induct) simp_all

lemma fresh_set: "set (fresh S xs) = set xs - S"
  by (induction xs arbitrary: S) auto

lemma fresh_distinct: "distinct (fresh S xs)"
  by (induction xs arbitrary: S) (auto simp: fresh_set)

lemma fresh_positions:
  "fresh S xs = map (\<lambda>i. xs ! i) (filter (\<lambda>i. xs ! i \<notin> S \<union> set (take i xs)) [0..<length xs])"
proof (induction xs arbitrary: S)
  case Nil
  then show ?case by simp
next
  case (Cons x xs)
  have upt: "[0..<length (x # xs)] = 0 # map Suc [0..<length xs]"
    by (simp add: upt_conv_Cons map_Suc_upt del: upt_Suc)
  have tl: "map (\<lambda>i. (x # xs) ! i)
              (filter (\<lambda>i. (x # xs) ! i \<notin> S \<union> set (take i (x # xs))) (map Suc [0..<length xs])) =
            map (\<lambda>i. xs ! i) (filter (\<lambda>i. xs ! i \<notin> insert x S \<union> set (take i xs)) [0..<length xs])"
  proof -
    have "filter ((\<lambda>i. (x # xs) ! i \<notin> S \<union> set (take i (x # xs))) \<circ> Suc) [0..<length xs] =
          filter (\<lambda>i. xs ! i \<notin> insert x S \<union> set (take i xs)) [0..<length xs]"
      by (rule filter_cong) auto
    then show ?thesis by (simp add: filter_map comp_def)
  qed
  show ?case
  proof (cases "x \<in> S")
    case True
    then have "insert x S = S" by auto
    then show ?thesis using True Cons.IH[of S] tl unfolding upt by simp
  next
    case False
    then show ?thesis using Cons.IH[of "insert x S"] tl unfolding upt by simp
  qed
qed

lemma fresh_first_seen: "fresh {} xs = first_seen xs"
  by (simp add: fresh_positions first_seen_def)

lemma count_list_distinct: "distinct xs \<Longrightarrow> x \<in> set xs \<Longrightarrow> count_list xs x = 1"
  by (induction xs) (auto simp: count_list_0_iff)

text \<open>The tracklist after one iteration of the sequencer.\<close>

lemma recognize_segment_eq:
  assumes "get_name env (path_join tmp file_name) 3 w = (Some name, w1)"
  shows "recognize_segment env tmp total_segments out (idx, file_name) (u, S, w) =
     (name,
      if name \<noteq> ''Not found'' \<and> name \<notin> S
      then (u @ [name], insert name S,
            pace idx total_segments
              (write_to_file env name out (logger INFO (progress idx total_segments name) w1)))
      else (u, S, pace idx total_segments (logger INFO (progress idx total_segments name) w1)))"
  unfolding recognize_segment_def pace_def progress_def
  by (simp add: assms Let_def)

lemma get_name_shape:
  assumes m: "1 \<le> max_retries"
  shows "\<exists>s k. 1 \<le> k \<and> int k \<le> max_retries
           \<and> get_name env p max_retries w =
               (Some s, w\<lparr>calls := calls w + k, trace := trace w @ retry_trace p k\<rparr>)
           \<and> (s = ''Not found'' \<or> (\<exists>title subtitle. s = subtitle @ '' - '' @ title))"
proof -
  obtain n where n: "nat max_retries = Suc n" using m by (cases "nat max_retries") auto
  then have sn: "int (Suc n) = max_retries - 0" using m by linarith
  show ?thesis
  proof (cases "\<forall>i < Suc n. failed (recognize env (calls w + i))")
    case True
    have "int (Suc n) \<le> max_retries" using sn by simp
    with get_name_loop_exhausted[OF sn True, of p] show ?thesis
      unfolding get_name_def by (intro exI[of _ "''Not found''"] exI[of _ "Suc n"]) simp
  next
    case False
    define j where "j = (LEAST i. \<not> failed (recognize env (calls w + i)))"
    from False obtain i0 where i0: "i0 < Suc n" "\<not> failed (recognize env (calls w + i0))" by blast
    have nf: "\<not> failed (recognize env (calls w + j))"
      unfolding j_def using i0(2) by (rule LeastI)
    have "j \<le> i0" unfolding j_def using i0(2) by (rule Least_le)
    then have jn: "0 + int j < max_retries" using i0(1) sn by linarith
    have before: "\<forall>i < j. failed (recognize env (calls w + i))"
      unfolding j_def using not_less_Least by blast
    from not_failed[OF nf] obtain s where s: "try_recognize (recognize env (calls w + j)) = Inr (Some s)"
      by blast
    then obtain title subtitle where c: "s = subtitle @ '' - '' @ title"
      unfolding try_recognize_Some by blast
    have "int (Suc j) \<le> max_retries" using jn by simp
    with get_name_loop_success[OF jn before s, of p] c show ?thesis
      unfolding get_name_def by (intro exI[of _ s] exI[of _ "Suc j"]) auto
  qed
qed

lemma recognize_segment_tracks:
  assumes "recognize_segment env tmp total_segments out item (u, S, w) = (name, u', S', w')"
  shows "u' = (if name \<noteq> ''Not found'' \<and> name \<notin> S then u @ [name] else u)"
    and "S' = (if name \<noteq> ''Not found'' \<and> name \<notin> S then insert name S else S)"
proof -
  obtain idx file_name where item: "item = (idx, file_name)" by (cases item)
  obtain s k where g: "get_name env (path_join tmp file_name) 3 w =
      (Some s, w\<lparr>calls := calls w + k, trace := trace w @ retry_trace (path_join tmp file_name) k\<rparr>)"
    using get_name_shape[of 3 env "path_join tmp file_name" w] by auto
  note eq = recognize_segment_eq[OF g, of total_segments out idx u S]
  from assms eq have n: "name = s" unfolding item by simp
  show "u' = (if name \<noteq> ''Not found'' \<and> name \<notin> S then u @ [name] else u)"
    using assms eq unfolding item n by (cases "s \<noteq> ''Not found'' \<and> s \<notin> S") auto
  show "S' = (if name \<noteq> ''Not found'' \<and> name \<notin> S then insert name S else S)"
    using assms eq unfolding item n by (cases "s \<noteq> ''Not found'' \<and> s \<notin> S") auto
qed

lemma recognize_loop_tracks:
  "recognize_loop env tmp total_segments out items (u, S, w) = (u', S', w') \<Longrightarrow>
   set u \<subseteq> S \<Longrightarrow>
   u' = u @ fresh S (filter (\<lambda>n. n \<noteq> ''Not found'')
                 (track_names env tmp total_segments out items (u, S, w)))
   \<and> S' = S \<union> set u'"
proof (induction items arbitrary: u S w)
  case Nil
  then show ?case by auto
next
  case (Cons item items)
  obtain name u1 S1 w1 where step:
    "recognize_segment env tmp total_segments out item (u, S, w) = (name, u1, S1, w1)"
    by (metis prod_cases4)
  note t = recognize_segment_tracks[OF step]
  let ?rest = "filter (\<lambda>n. n \<noteq> ''Not found'') (track_names env tmp total_segments out items (u1, S1, w1))"
  have loop: "recognize_loop env tmp total_segments out items (u1, S1, w1) = (u', S', w')"
    using Cons.prems(1) step by simp
  have sub: "set u1 \<subseteq> S1" using t Cons.prems(2) by auto
  from Cons.IH[OF loop sub]
  have ih: "u' = u1 @ fresh S1 ?rest" and ihS: "S' = S1 \<union> set u'" by blast+
  have names: "track_names env tmp total_segments out (item # items) (u, S, w) =
                 name # track_names env tmp total_segments out items (u1, S1, w1)"
    using step by simp
  show ?case
  proof (cases "name \<noteq> ''Not found'' \<and> name \<notin> S")
    case True
    have u1: "u1 = u @ [name]" and S1: "S1 = insert name S"
      using t unfolding if_P[OF True] by simp_all
    have "fresh S (filter (\<lambda>n. n \<noteq> ''Not found'')
             (name # track_names env tmp total_segments out items (u1, S1, w1))) =
            name # fresh S1 ?rest"
      using True S1 by simp
    then have a: "u' = u @ fresh S (filter (\<lambda>n. n \<noteq> ''Not found'')
                     (track_names env tmp total_segments out (item # items) (u, S, w)))"
      unfolding names using ih u1 by simp
    have "name \<in> set u'" using ih u1 by simp
    then have "S' = S \<union> set u'" using ihS S1 by auto
    with a show ?thesis by blast
  next
    case False
    have u1: "u1 = u" and S1: "S1 = S"
      using t unfolding if_not_P[OF False] by simp_all
    have "fresh S (filter (\<lambda>n. n \<noteq> ''Not found'')
             (name # track_names env tmp total_segments out items (u1, S1, w1))) =
            fresh S1 ?rest"
      using False S1 by auto
    then have a: "u' = u @ fresh S (filter (\<lambda>n. n \<noteq> ''Not found'')
                     (track_names env tmp total_segments out (item # items) (u, S, w)))"
      unfolding names using ih u1 by simp
    have "S' = S \<union> set u'" using ihS S1 by simp
    with a show ?thesis by blast
  qed
qed

text \<open>A service that answers every call with the same track.\<close>

lemma get_name_constant:
  assumes "\<And>n. recognize env n = Track (Some title) (Some subtitle)"
  shows "get_name env p 3 w =
     (Some (subtitle @ '' - '' @ title), w\<lparr>calls := Suc (calls w), trace := trace w @ [Recognize p]\<rparr>)"
proof -
  have "get_name_loop env p 3 0 w =
     (Some (subtitle @ '' - '' @ title),
      w\<lparr>calls := calls w + Suc 0, trace := trace w @ retry_trace p (Suc 0)\<rparr>)"
    by (rule get_name_loop_success) (simp_all add: assms)
  then show ?thesis by (simp add: get_name_def)
qed

lemma track_names_constant:
  assumes "\<And>n. recognize env n = Track (Some title) (Some subtitle)"
  shows "track_names env tmp total_segments out items st =
           map (\<lambda>item. subtitle @ '' - '' @ title) items"
proof (induction items arbitrary: st)
  case Nil
  then show ?case by simp
next
  case (Cons item items)
  obtain idx file_name where item: "item = (idx, file_name)" by (cases item)
  obtain u S w where st: "st = (u, S, w)" by (cases st)
  have "fst (recognize_segment env tmp total_segments out item st) = subtitle @ '' - '' @ title"
    unfolding item st
    by (subst recognize_segment_eq[OF get_name_constant[OF assms]]) simp
  then show ?case using Cons.IH by simp
qed

text \<open>
  Claim C3. For every run of the sequencer over one file's segments, started as
  \<^verbatim>\<open>process_audio_file\<close> starts it (empty \<^verbatim>\<open>unique_tracks\<close> and \<^verbatim>\<open>seen_tracks\<close>), the
  resulting list of unique tracks has no two equal strings, and it is the sequence of the
  recognized (non-sentinel) results in the order in which each distinct string was first
  recognized; a string recognized for several segments is in the list exactly once.
\<close>

theorem unique_tracks_first_seen:
  assumes "recognize_segments env tmp tmp_files total_segments out ([], {}, w) =
             (unique_tracks, seen_tracks, w')"
  shows "distinct unique_tracks
     \<and> seen_tracks = set unique_tracks
     \<and> ''Not found'' \<notin> set unique_tracks
     \<and> unique_tracks =
         first_seen (filter (\<lambda>n. n \<noteq> ''Not found'')
           (track_names env tmp total_segments out (enumerate 1 tmp_files) ([], {}, w)))
     \<and> (\<forall>t \<in> set (track_names env tmp total_segments out (enumerate 1 tmp_files) ([], {}, w)).
           t \<noteq> ''Not found'' \<longrightarrow> count_list unique_tracks t = 1)"
proof -
  let ?names = "track_names env tmp total_segments out (enumerate 1 tmp_files) ([], {}, w)"
  have "set ([]::string list) \<subseteq> {}" by simp
  from recognize_loop_tracks[OF assms[unfolded recognize_segments_def] this]
  have u: "unique_tracks = fresh {} (filter (\<lambda>n. n \<noteq> ''Not found'') ?names)"
    and s: "seen_tracks = set unique_tracks" by simp_all
  have d: "distinct unique_tracks" unfolding u by (rule fresh_distinct)
  have m: "set unique_tracks = set ?names - {''Not found''}"
    unfolding u fresh_set by auto
  have c: "\<forall>t \<in> set ?names. t \<noteq> ''Not found'' \<longrightarrow> count_list unique_tracks t = 1"
  proof (intro ballI impI)
    fix t assume "t \<in> set ?names" "t \<noteq> ''Not found''"
    then have "t \<in> set unique_tracks" unfolding m by simp
    with d show "count_list unique_tracks t = 1" by (rule count_list_distinct)
  qed
  have nf: "''Not found'' \<notin> set unique_tracks" unfolding m by simp
  have fs: "unique_tracks = first_seen (filter (\<lambda>n. n \<noteq> ''Not found'') ?names)"
    unfolding u by (rule fresh_first_seen)
  from d s nf fs c show ?thesis by blast
qed

text \<open>The theorem on two segments that both recognize to \<^verbatim>\<open>A - B\<close>.\<close>

theorem unique_tracks_first_seen_witness:
  "\<exists>w'. recognize_segments (env_of (\<lambda>n. Track (Some ''B'') (Some ''A'')) (\<lambda>n. True) None)
          ''/tmp/shazam_x'' [''1.mp3'', ''2.mp3''] 2 ''out.txt'' ([], {}, world0) =
        ([''A - B''], {''A - B''}, w')
   \<and> track_names (env_of (\<lambda>n. Track (Some ''B'') (Some ''A'')) (\<lambda>n. True) None)
          ''/tmp/shazam_x'' 2 ''out.txt'' (enumerate 1 [''1.mp3'', ''2.mp3'']) ([], {}, world0) =
        [''A - B'', ''A - B'']
   \<and> count_list [''A - B''] ''A - B'' = 1"
proof -
  let ?env = "env_of (\<lambda>n. Track (Some ''B'') (Some ''A'')) (\<lambda>n. True) None"
  have svc: "\<And>n. recognize ?env n = Track (Some ''B'') (Some ''A'')"
    by (simp add: env_of_def)
  have names: "track_names ?env ''/tmp/shazam_x'' 2 ''out.txt'' (enumerate 1 [''1.mp3'', ''2.mp3''])
                 ([], {}, world0) = [''A - B'', ''A - B'']"
    by (subst track_names_constant[OF svc]) (simp add: enumerate_eq_zip)
  obtain u S w' where r: "recognize_segments ?env ''/tmp/shazam_x'' [''1.mp3'', ''2.mp3''] 2 ''out.txt''
                             ([], {}, world0) = (u, S, w')"
    by (metis prod_cases3)
  from unique_tracks_first_seen[OF r]
  have u: "u = first_seen (filter (\<lambda>n. n \<noteq> ''Not found'') [''A - B'', ''A - B''])"
    and S: "S = set u" unfolding names by blast+
  have "u = [''A - B'']" unfolding u by (simp add: fresh_first_seen[symmetric])
  with r S names show ?thesis by simp
qed

subsection \<open>Segment names, sorting and the file pipeline: lemmas\<close>

lemma of_char_digit_char: "d < 10 \<Longrightarrow> (of_char (digit_char d) :: nat) = 48 + d"
  by (simp add: digit_char_def of_char_of)

lemma is_digit_digit_char: "d < 10 \<Longrightarrow> is_digit (digit_char d)"
  by (simp add: is_digit_def of_char_digit_char)

lemma str_nat_digits: "list_all is_digit (str_nat n)"
proof (induction n rule: str_nat.induct)
  case (1 n)
  show ?case
  proof (cases "n < 10")
    case True
    then show ?thesis by (subst str_nat.simps) (simp add: is_digit_digit_char)
  next
    case False
    then show ?thesis using 1 by (subst str_nat.simps) (simp add: is_digit_digit_char)
  qed
qed

lemma str_nat_nonempty: "str_nat n \<noteq> []"
  by (subst str_nat.simps) simp

lemma str_nat_value:
  "foldl (\<lambda>acc c. 10 * acc + ((of_char c :: nat) - 48)) 0 (str_nat n) = n"
proof (induction n rule: str_nat.induct)
  case (1 n)
  show ?case
  proof (cases "n < 10")
    case True
    then show ?thesis by (subst str_nat.simps) (simp add: of_char_digit_char)
  next
    case False
    then show ?thesis using 1 by (subst str_nat.simps) (simp add: of_char_digit_char)
  qed
qed

lemma int_of_str_str_nat: "int_of_str (str_nat n) = Inr n"
  by (simp add: int_of_str_def str_nat_digits str_nat_nonempty str_nat_value)

lemma rfind_None: "rfind c xs = None \<longleftrightarrow> c \<notin> set xs"
  by (induction xs) (auto split: option.splits)

lemma rfind_append:
  "rfind c (xs @ ys) =
     (case rfind c ys of Some i \<Rightarrow> Some (length xs + i) | None \<Rightarrow> rfind c xs)"
  by (induction xs) (auto split: option.splits)

lemma is_digit_not_dot: "is_digit c \<Longrightarrow> c \<noteq> CHR ''.'' \<and> c \<noteq> CHR ''/''"
  by (auto simp: is_digit_def)

lemma digits_no_sep: "list_all is_digit ds \<Longrightarrow> CHR ''/'' \<notin> set ds \<and> CHR ''.'' \<notin> set ds"
  using is_digit_not_dot by (auto simp: list_all_iff)

lemma splitext_digits:
  assumes "list_all is_digit ds" "ds \<noteq> []"
  shows "splitext (ds @ ''.mp3'') = (ds, ''.mp3'')"
proof -
  have dot: "rfind (CHR ''.'') (ds @ ''.mp3'') = Some (length ds)"
    by (simp add: rfind_append)
  have sep: "rfind (CHR ''/'') (ds @ ''.mp3'') = None"
    using digits_no_sep[OF assms(1)] by (simp add: rfind_None)
  have "(ds @ ''.mp3'') ! 0 \<noteq> CHR ''.''"
    using assms digits_no_sep[OF assms(1)] by (cases ds) auto
  moreover have "0 \<in> set [0..<length ds]" using assms(2) by simp
  ultimately have ex: "list_ex (\<lambda>k. (ds @ ''.mp3'') ! k \<noteq> CHR ''.'') [0..<length ds]"
    unfolding list_ex_iff by blast
  show ?thesis
    unfolding splitext_def dot sep using ex by simp
qed

lemma sort_index_segment_name: "sort_index (segment_name k) = Inr k"
  by (simp add: sort_index_def segment_name_def splitext_digits str_nat_digits
      str_nat_nonempty int_of_str_str_nat)

lemma segment_name_inj: "segment_name i = segment_name j \<Longrightarrow> i = j"
  by (metis sort_index_segment_name sum.inject(2))

lemma with_keys_segment_names:
  "with_keys (map segment_name ks) = Inr (map (\<lambda>k. (k, segment_name k)) ks)"
  by (induction ks) (simp_all add: sort_index_segment_name)

lemma insort_key_fst_map:
  "insort_key fst (k, g k) (map (\<lambda>k. (k, g k)) ks) = map (\<lambda>k. (k, g k)) (insort k (ks :: nat list))"
  by (induction ks) simp_all

lemma sort_key_fst_map:
  "sort_key fst (map (\<lambda>k. (k, g k)) ks) = map (\<lambda>k. (k, g k)) (sort (ks :: nat list))"
  by (induction ks) (simp_all add: insort_key_fst_map)

lemma sorted_by_index_segment_names:
  "sorted_by_index (map segment_name ks) = Inr (map segment_name (sort ks))"
  by (simp add: sorted_by_index_def with_keys_segment_names sort_key_fst_map comp_def)

lemma sort_upt: "mset ks = mset [1..<Suc N] \<Longrightarrow> sort ks = [1..<Suc N]"
  by (rule properties_for_sort) (simp_all del: upt_Suc)

text \<open>The effect of \<^verbatim>\<open>write_to_file\<close> and of one iteration on the world.\<close>

lemma appended_retry_trace [simp]: "appended f (retry_trace p k) = []"
  by (induction p k rule: retry_trace.induct) simp_all

lemma write_to_file_effect:
  "appended out (trace (write_to_file env d out w)) =
     appended out (trace w) @ (if d \<noteq> ''Not found'' \<and> open_ok env (opens w) then [d @ newline] else [])"
  "recognized (trace (write_to_file env d out w)) = recognized (trace w)"
  "opens (write_to_file env d out w) = (if d \<noteq> ''Not found'' then Suc (opens w) else opens w)"
  "calls (write_to_file env d out w) = calls w"
  by (simp_all add: write_to_file_def append_file_def)

lemma pace_effect [simp]:
  "appended out (trace (pace idx n w)) = appended out (trace w)"
  "recognized (trace (pace idx n w)) = recognized (trace w)"
  "opens (pace idx n w) = opens w" "calls (pace idx n w) = calls w"
  by (simp_all add: pace_def)

lemma recognize_segment_effect:
  assumes "recognize_segment env tmp total_segments out (idx, file_name) (u, S, w) = (name, u', S', w')"
  shows "\<exists>k. 1 \<le> k \<and> k \<le> 3
      \<and> recognized (trace w') = recognized (trace w) @ replicate k (path_join tmp file_name)
      \<and> appended out (trace w') = appended out (trace w) @
           (if name \<noteq> ''Not found'' \<and> name \<notin> S \<and> open_ok env (opens w) then [name @ newline] else [])
      \<and> opens w' = (if name \<noteq> ''Not found'' \<and> name \<notin> S then Suc (opens w) else opens w)
      \<and> calls w' = calls w + k"
proof -
  obtain s k where k: "1 \<le> k" "int k \<le> 3"
    and g: "get_name env (path_join tmp file_name) 3 w =
      (Some s, w\<lparr>calls := calls w + k, trace := trace w @ retry_trace (path_join tmp file_name) k\<rparr>)"
    using get_name_shape[of 3 env "path_join tmp file_name" w] by auto
  note eq = recognize_segment_eq[OF g, of total_segments out idx u S]
  from assms eq have n: "name = s" by simp
  have "recognized (trace w') = recognized (trace w) @ replicate k (path_join tmp file_name)
      \<and> appended out (trace w') = appended out (trace w) @
           (if name \<noteq> ''Not found'' \<and> name \<notin> S \<and> open_ok env (opens w) then [name @ newline] else [])
      \<and> opens w' = (if name \<noteq> ''Not found'' \<and> name \<notin> S then Suc (opens w) else opens w)
      \<and> calls w' = calls w + k"
    using assms eq unfolding n
    by (cases "s \<noteq> ''Not found'' \<and> s \<notin> S")
       (auto simp: write_to_file_effect recognized_retry_trace)
  with k show ?thesis by (intro exI[of _ k]) simp
qed

text \<open>The effect of the whole loop on the world.\<close>

lemma recognize_loop_recognized:
  "recognize_loop env tmp total_segments out items (u, S, w) = (u', S', w') \<Longrightarrow>
   \<exists>ks. length ks = length items \<and> (\<forall>k \<in> set ks. 1 \<le> k \<and> k \<le> 3)
     \<and> recognized (trace w') =
         recognized (trace w) @
         concat (map2 replicate ks (map (\<lambda>item. path_join tmp (snd item)) items))"
proof (induction items arbitrary: u S w)
  case Nil
  then show ?case by simp
next
  case (Cons item items)
  obtain idx file_name where item: "item = (idx, file_name)" by (cases item)
  obtain name u1 S1 w1 where step:
    "recognize_segment env tmp total_segments out (idx, file_name) (u, S, w) = (name, u1, S1, w1)"
    by (metis prod_cases4)
  from recognize_segment_effect[OF step] obtain k where k: "1 \<le> k" "k \<le> 3"
    and r: "recognized (trace w1) = recognized (trace w) @ replicate k (path_join tmp file_name)"
    by blast
  have "recognize_loop env tmp total_segments out items (u1, S1, w1) = (u', S', w')"
    using Cons.prems step unfolding item by simp
  from Cons.IH[OF this] obtain ks where ks: "length ks = length items"
    "\<forall>k \<in> set ks. 1 \<le> k \<and> k \<le> 3"
    "recognized (trace w') = recognized (trace w1) @
       concat (map2 replicate ks (map (\<lambda>item. path_join tmp (snd item)) items))"
    by blast
  show ?case
    using k r ks unfolding item
    by (intro exI[of _ "k # ks"]) simp
qed

lemma recognize_loop_appended:
  "recognize_loop env tmp total_segments out items (u, S, w) = (u', S', w') \<Longrightarrow>
   \<exists>new written. u' = u @ new
     \<and> appended out (trace w') = appended out (trace w) @ written
     \<and> subseq written (map (\<lambda>t. t @ newline) new)
     \<and> ((\<forall>n. open_ok env n) \<longrightarrow> written = map (\<lambda>t. t @ newline) new)"
proof (induction items arbitrary: u S w)
  case Nil
  then show ?case by simp
next
  case (Cons item items)
  obtain idx file_name where item: "item = (idx, file_name)" by (cases item)
  obtain name u1 S1 w1 where step:
    "recognize_segment env tmp total_segments out (idx, file_name) (u, S, w) = (name, u1, S1, w1)"
    by (metis prod_cases4)
  define fresh1 where "fresh1 = (name \<noteq> ''Not found'' \<and> name \<notin> S)"
  define a where "a = (if fresh1 then [name] else [])"
  define wr where "wr = (if fresh1 \<and> open_ok env (opens w) then [name @ newline] else [])"
  have u1: "u1 = u @ a"
    using recognize_segment_tracks(1)[OF step] unfolding a_def fresh1_def by simp
  have ap: "appended out (trace w1) = appended out (trace w) @ wr"
    using recognize_segment_effect[OF step] unfolding wr_def fresh1_def by auto
  have sub1: "subseq wr (map (\<lambda>t. t @ newline) a)"
    unfolding wr_def a_def by simp
  have ok1: "(\<forall>n. open_ok env n) \<longrightarrow> wr = map (\<lambda>t. t @ newline) a"
    unfolding wr_def a_def by simp
  have "recognize_loop env tmp total_segments out items (u1, S1, w1) = (u', S', w')"
    using Cons.prems step unfolding item by simp
  from Cons.IH[OF this] obtain new written where ih: "u' = u1 @ new"
    "appended out (trace w') = appended out (trace w1) @ written"
    "subseq written (map (\<lambda>t. t @ newline) new)"
    "(\<forall>n. open_ok env n) \<longrightarrow> written = map (\<lambda>t. t @ newline) new"
    by blast
  have "subseq (wr @ written) (map (\<lambda>t. t @ newline) (a @ new))"
    using sub1 ih(3) by (simp add: list_emb_append_mono)
  then show ?case
    using u1 ap ih ok1
    by (intro exI[of _ "a @ new"] exI[of _ "wr @ written"]) simp
qed

text \<open>The listing of the temporary directory, sorted.\<close>

lemma segment_audio_names:
  "map fst (fst (segment_audio env audio_file (tmp_dir env audio_file) w)) =
     map segment_name (exported env audio_file)"
proof (cases "from_file env audio_file")
  case None
  then show ?thesis by (simp add: segment_audio_def exported_def)
next
  case (Some audio)
  let ?Q = "\<lambda>name. export_ok env (path_join (tmp_dir env audio_file) name)"
  have gen: "map fst (filter (\<lambda>(name, seg). ?Q name) (map (\<lambda>(idx, seg). (segment_name idx, seg)) xs)) =
             map segment_name (filter (\<lambda>i. ?Q (segment_name i)) (map fst xs))"
    for xs :: "(nat \<times> audio) list"
    by (induction xs) auto
  have segs: "numbered_segments audio =
     Inr (enumerate 1 (map (\<lambda>k. py_slice audio (k * SEGMENT_LENGTH) (k * SEGMENT_LENGTH + SEGMENT_LENGTH))
            [0..<ceil_div (length audio) SEGMENT_LENGTH]))"
    by (simp add: numbered_segments_def segments_eq)
  show ?thesis
    unfolding segment_audio_def exported_def
    by (simp add: Some segs Let_def gen map_fst_enumerate del: upt_Suc)
qed

lemma segment_audio_world:
  "\<exists>es. trace (snd (segment_audio env audio_file d w)) = trace w @ es
      \<and> appended out es = [] \<and> recognized es = []
      \<and> calls (snd (segment_audio env audio_file d w)) = calls w
      \<and> opens (snd (segment_audio env audio_file d w)) = opens w"
  by (auto simp: segment_audio_def Let_def split: option.splits sum.splits)

lemma index_key_segment_name [simp]: "index_key (segment_name k) = k"
  by (simp add: index_key_def sort_index_segment_name)

lemma permuted_segment_names:
  assumes "mset names = mset (map segment_name ks)"
  shows "\<exists>ks'. names = map segment_name ks' \<and> mset ks' = mset ks"
proof -
  have "set names = segment_name ` set ks"
    using assms by (metis set_map set_mset_mset)
  then have "map (segment_name \<circ> index_key) names = names"
    by (intro map_idI) auto
  then have a: "names = map segment_name (map index_key names)" by simp
  have "mset (map index_key names) = image_mset index_key (mset (map segment_name ks))"
    using assms by (metis mset_map)
  also have "\<dots> = mset ks" by (simp add: multiset.map_comp comp_def)
  finally show ?thesis using a by blast
qed

lemma sorted_listing:
  "sorted_by_index (os_listdir env (map segment_name ks)) = Inr (map segment_name (sort ks))"
proof -
  have "mset (os_listdir env (map segment_name ks)) = mset (map segment_name ks)"
    by (simp add: os_listdir_def)
  from permuted_segment_names[OF this] obtain ks'
    where ks': "os_listdir env (map segment_name ks) = map segment_name ks'" "mset ks' = mset ks"
    by blast
  have "sort ks' = sort ks"
    using ks'(2) by (intro properties_for_sort) simp_all
  then show ?thesis unfolding ks'(1) by (simp add: sorted_by_index_segment_names)
qed

lemma sorted_exported: "sort (exported env audio_file) = exported env audio_file"
proof -
  have "sorted (filter P [a..<b])" for P :: "nat \<Rightarrow> bool" and a b
    using sorted_wrt_filter[of "(\<le>)" "[a..<b]" P] by simp
  then have "sorted (exported env audio_file)"
    by (simp add: exported_def split: option.splits del: upt_Suc)
  then show ?thesis by (rule sorted_sort_id)
qed

lemma tmp_files_exported:
  "sorted_by_index (os_listdir env (map fst (fst (segment_audio env audio_file (tmp_dir env audio_file) w)))) =
     Inr (map segment_name (exported env audio_file))"
  by (simp add: segment_audio_names sorted_listing sorted_exported)

text \<open>The two ways through \<^verbatim>\<open>process_audio_file\<close>.\<close>

lemma process_audio_file_header_failed:
  assumes "\<not> open_ok env (opens w)"
  shows "process_audio_file env audio_file out file_index total_files w =
     Inr ([], logger ERROR (''Error writing header for '' @ audio_file @ '': '' @ exc_text OSError)
                ((logger INFO (start_log audio_file file_index total_files) w)
                   \<lparr>opens := Suc (opens w)\<rparr>))"
  using assms
  by (simp add: process_audio_file_def append_file_def start_log_def Let_def)

lemma process_audio_file_run:
  assumes "open_ok env (opens w)"
    and "recognize_segments env (tmp_dir env audio_file) (map segment_name (exported env audio_file))
           (length (exported env audio_file)) out
           ([], {}, before_recognition env audio_file out file_index total_files w) = (u, S, w6)"
  shows "process_audio_file env audio_file out file_index total_files w =
           Inr (u, after_recognition env audio_file out u w6)"
proof -
  have w1: "(if 2 < total_files
             then logger INFO (newline @ ''['' @ str_nat file_index @ ''/'' @ str_nat total_files @
                       ''] Processing file: '' @ audio_file) w
             else logger INFO (newline @ ''Processing file: '' @ audio_file) w) =
            logger INFO (start_log audio_file file_index total_files) w"
    by (simp add: start_log_def)
  show ?thesis
    unfolding process_audio_file_def w1 Let_def
    using assms
    by (simp add: append_file_def split_beta tmp_files_exported
        before_recognition_def[symmetric] after_recognition_def)
qed

subsection \<open>File pipeline: what reaches the output file\<close>

text \<open>The effect of the stages around the sequencer on the world.\<close>

lemma before_recognition_effect:
  "appended out (trace (before_recognition env audio_file out file_index total_files w)) =
     appended out (trace w) @ [file_header audio_file]"
  "recognized (trace (before_recognition env audio_file out file_index total_files w)) =
     recognized (trace w)"
  "opens (before_recognition env audio_file out file_index total_files w) = Suc (opens w)"
  "calls (before_recognition env audio_file out file_index total_files w) = calls w"
proof -
  let ?w3 = "logger INFO ''1/4 Segmenting audio file...''
             (emit (Append out (file_header audio_file))
                ((logger INFO (start_log audio_file file_index total_files) w)
                   \<lparr>opens := Suc (opens w)\<rparr>))"
  obtain es where es: "trace (snd (segment_audio env audio_file (tmp_dir env audio_file) ?w3)) = trace ?w3 @ es"
    "appended out es = []" "recognized es = []"
    "calls (snd (segment_audio env audio_file (tmp_dir env audio_file) ?w3)) = calls ?w3"
    "opens (snd (segment_audio env audio_file (tmp_dir env audio_file) ?w3)) = opens ?w3"
    using segment_audio_world[of env audio_file "tmp_dir env audio_file" ?w3 out] by blast
  show "appended out (trace (before_recognition env audio_file out file_index total_files w)) =
     appended out (trace w) @ [file_header audio_file]"
    unfolding before_recognition_def by (simp add: es)
  show "recognized (trace (before_recognition env audio_file out file_index total_files w)) =
     recognized (trace w)"
    unfolding before_recognition_def by (simp add: es)
  show "opens (before_recognition env audio_file out file_index total_files w) = Suc (opens w)"
    unfolding before_recognition_def by (simp add: es)
  show "calls (before_recognition env audio_file out file_index total_files w) = calls w"
    unfolding before_recognition_def by (simp add: es)
qed

lemma fold_logger:
  "trace (fold (logger l) ms w) = trace w @ map (Log l) ms
   \<and> calls (fold (logger l) ms w) = calls w \<and> opens (fold (logger l) ms w) = opens w"
  by (induction ms arbitrary: w) simp_all

lemma appended_logs [simp]: "appended f (map (Log l) ms) = []"
  by (induction ms) simp_all

lemma recognized_logs [simp]: "recognized (map (Log l) ms) = []"
  by (induction ms) simp_all

lemma log_summary_effect:
  "trace (log_summary u w) =
     trace w @
     (if u \<noteq> []
      then map (Log INFO)
             ((newline @ ''--- Tracklist ('' @ str_nat (length u) @ '' tracks) ---'') #
              summary_lines 1 u @ [''---''])
      else [])"
  "calls (log_summary u w) = calls w" "opens (log_summary u w) = opens w"
  by (simp_all add: log_summary_def fold_logger)

lemma after_recognition_effect:
  "appended out (trace (after_recognition env audio_file out u w6)) =
     appended out (trace w6) @ (if open_ok env (opens w6) then [newline] else [])"
  "recognized (trace (after_recognition env audio_file out u w6)) = recognized (trace w6)"
  "calls (after_recognition env audio_file out u w6) = calls w6"
  by (simp_all add: after_recognition_def log_summary_effect)

lemma subseq_subset: "subseq xs ys \<Longrightarrow> set xs \<subseteq> set ys"
  by (induction rule: list_emb.induct) auto

lemma process_audio_file_result:
  assumes "process_audio_file env audio_file out file_index total_files w = Inr (u, w')"
  shows "(\<not> open_ok env (opens w) \<and> u = []
          \<and> w' = logger ERROR (''Error writing header for '' @ audio_file @ '': '' @ exc_text OSError)
                    ((logger INFO (start_log audio_file file_index total_files) w)
                       \<lparr>opens := Suc (opens w)\<rparr>))
       \<or> (open_ok env (opens w)
          \<and> (\<exists>S w6. recognize_segments env (tmp_dir env audio_file)
                        (map segment_name (exported env audio_file))
                        (length (exported env audio_file)) out
                        ([], {}, before_recognition env audio_file out file_index total_files w) =
                       (u, S, w6)
                 \<and> w' = after_recognition env audio_file out u w6))"
proof (cases "open_ok env (opens w)")
  case False
  from process_audio_file_header_failed[OF False, of audio_file out file_index total_files] assms
  show ?thesis using False by simp
next
  case True
  obtain u0 S w6 where r: "recognize_segments env (tmp_dir env audio_file)
                        (map segment_name (exported env audio_file))
                        (length (exported env audio_file)) out
                        ([], {}, before_recognition env audio_file out file_index total_files w) =
                       (u0, S, w6)"
    by (metis prod_cases3)
  from process_audio_file_run[OF True r] assms
  have "u0 = u" "w' = after_recognition env audio_file out u w6" by simp_all
  with r True show ?thesis by blast
qed

lemma process_audio_file_returns:
  "\<exists>u w'. process_audio_file env audio_file out file_index total_files w = Inr (u, w')"
proof (cases "open_ok env (opens w)")
  case False
  from process_audio_file_header_failed[OF False] show ?thesis by blast
next
  case True
  obtain u0 S w6 where r: "recognize_segments env (tmp_dir env audio_file)
                        (map segment_name (exported env audio_file))
                        (length (exported env audio_file)) out
                        ([], {}, before_recognition env audio_file out file_index total_files w) =
                       (u0, S, w6)"
    by (metis prod_cases3)
  from process_audio_file_run[OF True r] show ?thesis by blast
qed

text \<open>A service whose every call fails.\<close>

lemma get_name_all_failed:
  assumes "\<And>n. failed (recognize env n)"
  shows "get_name env p 3 w =
     (Some ''Not found'', w\<lparr>calls := calls w + 3, trace := trace w @ retry_trace p 3\<rparr>)"
proof -
  have "int (Suc 2) = 3 - 0" by simp
  from get_name_loop_exhausted[OF this, of env w p] assms
  show ?thesis by (simp add: get_name_def numeral_3_eq_3)
qed

lemma track_names_all_failed:
  assumes "\<And>n. failed (recognize env n)"
  shows "track_names env tmp total_segments out items st = map (\<lambda>item. ''Not found'') items"
proof (induction items arbitrary: st)
  case Nil
  then show ?case by simp
next
  case (Cons item items)
  obtain idx file_name where item: "item = (idx, file_name)" by (cases item)
  obtain u S w where st: "st = (u, S, w)" by (cases st)
  have "fst (recognize_segment env tmp total_segments out item st) = ''Not found''"
    unfolding item st
    by (subst recognize_segment_eq[OF get_name_all_failed[OF assms]]) simp
  then show ?case using Cons.IH by simp
qed

lemma file_header_not_sentinel: "file_header audio_file \<noteq> ''Not found'' @ newline"
  by (simp add: file_header_def newline_def)

lemma newline_not_sentinel: "newline \<noteq> ''Not found'' @ newline"
  by (simp add: newline_def)


lemma process_audio_file_written:
  assumes "process_audio_file env audio_file out file_index total_files w = Inr (unique_tracks, w')"
  shows "\<exists>written. appended out (trace w') = appended out (trace w) @ written
      \<and> ''Not found'' @ newline \<notin> set written
      \<and> ''Not found'' \<notin> set unique_tracks
      \<and> subseq written (file_section audio_file unique_tracks)
      \<and> ((\<forall>n. open_ok env n) \<longrightarrow> written = file_section audio_file unique_tracks)
      \<and> ((\<forall>n. failed (recognize env n)) \<longrightarrow> unique_tracks = [])
      \<and> ((\<forall>n. failed (recognize env n)) \<and> (\<forall>n. open_ok env n) \<longrightarrow>
            written = [file_header audio_file, newline])"
proof -
  let ?line = "\<lambda>track. track @ newline"
  from process_audio_file_result[OF assms]
  show ?thesis
  proof (elim disjE conjE exE)
    assume f: "\<not> open_ok env (opens w)" and u: "unique_tracks = []"
      and w': "w' = logger ERROR (''Error writing header for '' @ audio_file @ '': '' @ exc_text OSError)
                    ((logger INFO (start_log audio_file file_index total_files) w)
                       \<lparr>opens := Suc (opens w)\<rparr>)"
    have "appended out (trace w') = appended out (trace w) @ []" unfolding w' by simp
    then show ?thesis using f u
      by (intro exI[of _ "[]"]) auto
  next
    fix S w6
    let ?w5 = "before_recognition env audio_file out file_index total_files w"
    let ?items = "enumerate 1 (map segment_name (exported env audio_file))"
    let ?n = "length (exported env audio_file)"
    let ?tmp = "tmp_dir env audio_file"
    assume ok: "open_ok env (opens w)"
      and r: "recognize_segments env ?tmp (map segment_name (exported env audio_file)) ?n out
                ([], {}, ?w5) = (unique_tracks, S, w6)"
      and w': "w' = after_recognition env audio_file out unique_tracks w6"
    note loop = r[unfolded recognize_segments_def]
    from recognize_loop_appended[OF loop] obtain wr where
      wr: "appended out (trace w6) = appended out (trace ?w5) @ wr"
        "subseq wr (map ?line unique_tracks)"
        "(\<forall>n. open_ok env n) \<longrightarrow> wr = map ?line unique_tracks"
      by auto
    have "set ([]::string list) \<subseteq> {}" by simp
    from recognize_loop_tracks[OF loop this]
    have u: "unique_tracks = fresh {} (filter (\<lambda>n. n \<noteq> ''Not found'')
               (track_names env ?tmp ?n out ?items ([], {}, ?w5)))" by simp
    have nf: "''Not found'' \<notin> set unique_tracks"
      by (subst u) (simp add: fresh_set)
    define blank where "blank = (if open_ok env (opens w6) then [newline] else [])"
    define written where "written = file_header audio_file # wr @ blank"
    have ap: "appended out (trace w') = appended out (trace w) @ written"
      unfolding w' written_def blank_def
      by (simp add: after_recognition_effect wr(1) before_recognition_effect)
    have sb: "subseq blank [newline]" unfolding blank_def by simp
    have sub: "subseq written (file_section audio_file unique_tracks)"
      unfolding written_def file_section_def
      using list_emb_append_mono[OF wr(2) sb] by simp
    have "set wr \<subseteq> ?line ` set unique_tracks"
      using subseq_subset[OF wr(2)] by simp
    then have "''Not found'' @ newline \<notin> set wr" using nf by auto
    then have ns: "''Not found'' @ newline \<notin> set written"
      unfolding written_def blank_def
      using file_header_not_sentinel[of audio_file] by auto
    have allok: "(\<forall>n. open_ok env n) \<longrightarrow> written = file_section audio_file unique_tracks"
      unfolding written_def blank_def file_section_def using wr(3) by simp
    have empty: "(\<forall>n. failed (recognize env n)) \<longrightarrow> unique_tracks = []"
    proof
      assume "\<forall>n. failed (recognize env n)"
      then have "track_names env ?tmp ?n out ?items ([], {}, ?w5) = map (\<lambda>item. ''Not found'') ?items"
        by (intro track_names_all_failed) simp
      then show "unique_tracks = []" by (subst u) (simp add: filter_empty_conv)
    qed
    have both: "(\<forall>n. failed (recognize env n)) \<and> (\<forall>n. open_ok env n) \<longrightarrow>
            written = [file_header audio_file, newline]"
      using allok empty by (simp add: file_section_def)
    from ap ns nf sub allok empty both show ?thesis
      by (intro exI[of _ written]) blast
  qed
qed

text \<open>
  Claim C4. A line equal to the sentinel \<^verbatim>\<open>Not found\<close> is never appended to the output
  file. In every run of \<^verbatim>\<open>process_audio_file\<close> the chunks appended to the output file
  are among the header line, one line per track of the tracklist, and the blank separator
  line, in this order (all of them when every write succeeds), and the tracklist has no
  sentinel. When every segment returns the sentinel (the service never finds a track),
  the tracklist is empty and the section is the header line and the blank line only.
\<close>

theorem sentinel_never_persisted:
  assumes "process_audio_file env audio_file out file_index total_files w = Inr (unique_tracks, w')"
  shows "\<exists>written. appended out (trace w') = appended out (trace w) @ written
      \<and> ''Not found'' @ newline \<notin> set written
      \<and> ''Not found'' \<notin> set unique_tracks
      \<and> subseq written (file_section audio_file unique_tracks)
      \<and> ((\<forall>n. open_ok env n) \<longrightarrow> written = file_section audio_file unique_tracks)
      \<and> ((\<forall>n. failed (recognize env n)) \<longrightarrow> unique_tracks = [])
      \<and> ((\<forall>n. failed (recognize env n)) \<and> (\<forall>n. open_ok env n) \<longrightarrow>
            written = [file_header audio_file, newline])"
  using assms by (rule process_audio_file_written)

text \<open>The theorem on a file of five segments, none of which is recognized.\<close>

theorem sentinel_never_persisted_witness:
  "\<exists>w'. process_audio_file (env_of (\<lambda>n. NoTrack) (\<lambda>n. True) (Some (replicate 300000 0)))
           ''downloads/set.mp3'' ''out.txt'' 1 1 world0 = Inr ([], w')
      \<and> appended ''out.txt'' (trace w') = [''===== set.mp3 ======'' @ newline, newline]"
proof -
  let ?env = "env_of (\<lambda>n. NoTrack) (\<lambda>n. True) (Some (replicate 300000 0))"
  obtain u w' where r: "process_audio_file ?env ''downloads/set.mp3'' ''out.txt'' 1 1 world0 = Inr (u, w')"
    using process_audio_file_returns by blast
  have f: "\<forall>n. failed (recognize ?env n)" by (simp add: env_of_def failed_def)
  have o: "\<forall>n. open_ok ?env n" by (simp add: env_of_def)
  from sentinel_never_persisted[OF r] f o
  have "u = []"
    and "appended ''out.txt'' (trace w') =
           appended ''out.txt'' (trace world0) @ [file_header ''downloads/set.mp3'', newline]"
    by auto
  moreover have "file_header ''downloads/set.mp3'' = ''===== set.mp3 ======'' @ newline"
    by (simp add: file_header_def basename_def)
  ultimately show ?thesis using r by (simp add: world0_def)
qed

subsection \<open>Batches: the output file and the tracklists\<close>









subsection \<open>Order of processing\<close>

lemma exported_all:
  "from_file env audio_file = Some audio \<Longrightarrow> (\<forall>p. export_ok env p) \<Longrightarrow>
   exported env audio_file = [1..<Suc (ceil_div (length audio) SEGMENT_LENGTH)]"
  by (simp add: exported_def del: upt_Suc)

lemma recognize_segments_recognized:
  assumes "recognize_segments env tmp tmp_files total_segments out (u, S, w) = (u', S', w')"
  shows "\<exists>cs. length cs = length tmp_files \<and> (\<forall>c \<in> set cs. 1 \<le> c \<and> c \<le> 3)
     \<and> recognized (trace w') =
         recognized (trace w) @ concat (map2 replicate cs (map (path_join tmp) tmp_files))"
proof -
  have "map (\<lambda>item. path_join tmp (snd item)) xs = map (path_join tmp) (map snd xs)"
    for xs :: "(nat \<times> string) list"
    by (induction xs) simp_all
  then have "map (\<lambda>item. path_join tmp (snd item)) (enumerate 1 tmp_files) = map (path_join tmp) tmp_files"
    by (simp only: map_snd_enumerate)
  with recognize_loop_recognized[OF assms[unfolded recognize_segments_def]]
  show ?thesis by simp
qed

text \<open>
  Claim C7. Whatever the order in which \<^verbatim>\<open>os.listdir\<close> returns the segment files
  named by the indices \<open>ks\<close>, \<^verbatim>\<open>process_audio_file\<close> sorts them by their numeric index
  (the sorted names are those of \<open>sort ks\<close>, whose sort keys are the indices themselves);
  when the files are those of the indices \<open>1..N\<close>, the sorted list is
  \<^verbatim>\<open>1.mp3\<close>, ..., \<^verbatim>\<open>N.mp3\<close>. The sequencer calls the recognition service on the files
  in the order of the list it is given, one file after the other (between one and three
  calls each). So for a buffer whose segments all materialize, the files are processed in
  the order of the indices \<open>1, 2, ..., ceil(D / W)\<close>, without gap or repetition.
\<close>

theorem segments_processed_in_index_order:
  "sorted_by_index (os_listdir env (map segment_name ks)) = Inr (map segment_name (sort ks))
   \<and> map sort_index (map segment_name (sort ks)) = map Inr (sort ks)
   \<and> (mset ks = mset [1..<Suc N] \<longrightarrow>
        sorted_by_index (os_listdir env (map segment_name ks)) = Inr (map segment_name [1..<Suc N]))
   \<and> (recognize_segments env tmp tmp_files total_segments out (u, S, w) = (u', S', w') \<longrightarrow>
        (\<exists>cs. length cs = length tmp_files \<and> (\<forall>c \<in> set cs. 1 \<le> c \<and> c \<le> 3)
           \<and> recognized (trace w') =
               recognized (trace w) @ concat (map2 replicate cs (map (path_join tmp) tmp_files))))
   \<and> (open_ok env (opens w0) \<and> from_file env audio_file = Some audio \<and> (\<forall>p. export_ok env p)
        \<and> process_audio_file env audio_file out file_index total_files w0 = Inr (tracks, w1) \<longrightarrow>
        (\<exists>cs. length cs = ceil_div (length audio) SEGMENT_LENGTH \<and> (\<forall>c \<in> set cs. 1 \<le> c \<and> c \<le> 3)
           \<and> recognized (trace w1) =
               recognized (trace w0) @
               concat (map2 replicate cs
                 (map (\<lambda>i. path_join (tmp_dir env audio_file) (segment_name i))
                    [1..<Suc (ceil_div (length audio) SEGMENT_LENGTH)]))))"
proof (intro conjI impI)
  show "sorted_by_index (os_listdir env (map segment_name ks)) = Inr (map segment_name (sort ks))"
    by (rule sorted_listing)
  show "map sort_index (map segment_name (sort ks)) = map Inr (sort ks)"
    by (simp add: sort_index_segment_name)
next
  assume "mset ks = mset [1..<Suc N]"
  then have "sort ks = [1..<Suc N]" by (rule sort_upt)
  then show "sorted_by_index (os_listdir env (map segment_name ks)) = Inr (map segment_name [1..<Suc N])"
    using sorted_listing[of env ks] by simp
next
  assume "recognize_segments env tmp tmp_files total_segments out (u, S, w) = (u', S', w')"
  then show "\<exists>cs. length cs = length tmp_files \<and> (\<forall>c \<in> set cs. 1 \<le> c \<and> c \<le> 3)
     \<and> recognized (trace w') =
         recognized (trace w) @ concat (map2 replicate cs (map (path_join tmp) tmp_files))"
    by (rule recognize_segments_recognized)
next
  assume h: "open_ok env (opens w0) \<and> from_file env audio_file = Some audio \<and> (\<forall>p. export_ok env p)
        \<and> process_audio_file env audio_file out file_index total_files w0 = Inr (tracks, w1)"
  let ?N = "ceil_div (length audio) SEGMENT_LENGTH"
  have ex: "exported env audio_file = [1..<Suc ?N]" using h exported_all by blast
  from h process_audio_file_result[of env audio_file out file_index total_files w0 tracks w1]
  obtain S6 w6 where r: "recognize_segments env (tmp_dir env audio_file)
                        (map segment_name (exported env audio_file))
                        (length (exported env audio_file)) out
                        ([], {}, before_recognition env audio_file out file_index total_files w0) =
                       (tracks, S6, w6)"
    and w1: "w1 = after_recognition env audio_file out tracks w6"
    by blast
  from recognize_segments_recognized[OF r] obtain cs where
    cs: "length cs = length (map segment_name (exported env audio_file))"
      "\<forall>c \<in> set cs. 1 \<le> c \<and> c \<le> 3"
      "recognized (trace w6) =
         recognized (trace (before_recognition env audio_file out file_index total_files w0)) @
         concat (map2 replicate cs (map (path_join (tmp_dir env audio_file))
           (map segment_name (exported env audio_file))))"
    by blast
  have "length cs = ?N" using cs(1) unfolding ex by simp
  moreover have "recognized (trace w1) =
               recognized (trace w0) @
               concat (map2 replicate cs
                 (map (\<lambda>i. path_join (tmp_dir env audio_file) (segment_name i)) [1..<Suc ?N]))"
    unfolding w1 using cs(3) unfolding ex
    by (simp add: after_recognition_effect before_recognition_effect comp_def del: upt_Suc)
  ultimately show "\<exists>cs. length cs = ?N \<and> (\<forall>c \<in> set cs. 1 \<le> c \<and> c \<le> 3)
           \<and> recognized (trace w1) =
               recognized (trace w0) @
               concat (map2 replicate cs
                 (map (\<lambda>i. path_join (tmp_dir env audio_file) (segment_name i)) [1..<Suc ?N]))"
    using cs(2) by blast
qed

lemma segment_name_examples:
  "segment_name (Suc 0) = ''1.mp3''" "segment_name 2 = ''2.mp3''" "segment_name 10 = ''10.mp3''"
  by (simp_all add: segment_name_def str_nat.simps digit_char_def char_of_def bit_Suc_0_iff)

text \<open>
  The theorem on the listing \<^verbatim>\<open>10.mp3, 2.mp3, 1.mp3\<close> (lexically, \<^verbatim>\<open>10.mp3\<close> would
  come before \<^verbatim>\<open>2.mp3\<close>), on the full listing \<^verbatim>\<open>2.mp3, 1.mp3\<close>, on a sequencer run over
  two files and on a file of one segment.
\<close>

theorem segments_processed_in_index_order_witness:
  "sorted_by_index (os_listdir (env_of (\<lambda>n. NoTrack) (\<lambda>n. True) None) [''10.mp3'', ''2.mp3'', ''1.mp3'']) =
     Inr [''1.mp3'', ''2.mp3'', ''10.mp3'']
   \<and> map sort_index [''1.mp3'', ''2.mp3'', ''10.mp3''] = [Inr 1, Inr 2, Inr 10]
   \<and> sorted_by_index (os_listdir (env_of (\<lambda>n. NoTrack) (\<lambda>n. True) None) [''2.mp3'', ''1.mp3'']) =
     Inr [''1.mp3'', ''2.mp3'']
   \<and> (''10.mp3'', ''2.mp3'') \<in> lexord {(a, b). (of_char a :: nat) < of_char b}
   \<and> (\<exists>cs u' S' w'. recognize_segments (env_of (\<lambda>n. NoTrack) (\<lambda>n. True) None) ''/tmp/shazam_x''
           [''1.mp3'', ''2.mp3''] 2 ''out.txt'' ([], {}, world0) = (u', S', w')
         \<and> length cs = 2
         \<and> recognized (trace w') =
             concat (map2 replicate cs [''/tmp/shazam_x/1.mp3'', ''/tmp/shazam_x/2.mp3'']))
   \<and> (\<exists>cs tracks w1. process_audio_file (env_of (\<lambda>n. NoTrack) (\<lambda>n. True) (Some [0, 0]))
           ''downloads/a.mp3'' ''out.txt'' 1 1 world0 = Inr (tracks, w1)
         \<and> length cs = 1
         \<and> recognized (trace w1) = concat (map2 replicate cs [''/tmp/shazam_x/1.mp3'']))"
proof -
  let ?env = "env_of (\<lambda>n. NoTrack) (\<lambda>n. True) None"
  let ?env2 = "env_of (\<lambda>n. NoTrack) (\<lambda>n. True) (Some [0, 0])"
  have s: "sort [10, 2, 1::nat] = [1, 2, 10]" by simp
  have m: "mset [2, 1::nat] = mset [1..<Suc 2]" by (simp add: upt_rec)
  have u: "[1..<Suc 2] = [1, 2]" by (simp add: upt_rec)
  note t = segments_processed_in_index_order[of ?env "[10, 2, 1]"]
  note t2 = segments_processed_in_index_order[of ?env "[2, 1]" 2]
  note t_sorted = t[THEN conjunct1]
  note t_index = t[THEN conjunct2, THEN conjunct1]
  note t_full = t2[THEN conjunct2, THEN conjunct2, THEN conjunct1]
  have a: "sorted_by_index (os_listdir ?env [''10.mp3'', ''2.mp3'', ''1.mp3'']) =
     Inr [''1.mp3'', ''2.mp3'', ''10.mp3'']"
    using t_sorted unfolding s by (simp add: segment_name_examples)
  have b: "map sort_index [''1.mp3'', ''2.mp3'', ''10.mp3''] = [Inr 1, Inr 2, Inr 10]"
    using t_index unfolding s by (simp add: segment_name_examples)
  have c: "sorted_by_index (os_listdir ?env [''2.mp3'', ''1.mp3'']) = Inr [''1.mp3'', ''2.mp3'']"
    using t_full m unfolding u by (simp add: segment_name_examples)
  have d: "(''10.mp3'', ''2.mp3'') \<in> lexord {(a, b). (of_char a :: nat) < of_char b}"
    by simp
  have e: "\<exists>cs u' S' w'. recognize_segments ?env ''/tmp/shazam_x''
           [''1.mp3'', ''2.mp3''] 2 ''out.txt'' ([], {}, world0) = (u', S', w')
         \<and> length cs = 2
         \<and> recognized (trace w') =
             concat (map2 replicate cs [''/tmp/shazam_x/1.mp3'', ''/tmp/shazam_x/2.mp3''])"
  proof -
    obtain u' S' w' where r: "recognize_segments ?env ''/tmp/shazam_x''
           [''1.mp3'', ''2.mp3''] 2 ''out.txt'' ([], {}, world0) = (u', S', w')"
      by (metis prod_cases3)
    from segments_processed_in_index_order[where env = ?env and tmp = "''/tmp/shazam_x''"
        and tmp_files = "[''1.mp3'', ''2.mp3'']" and total_segments = 2 and out = "''out.txt''"
        and u = "[]" and S = "{}" and w = world0 and u' = u' and S' = S' and w' = w'] r
    obtain cs where "length cs = length [''1.mp3'', ''2.mp3'']"
      "recognized (trace w') = recognized (trace world0) @
         concat (map2 replicate cs (map (path_join ''/tmp/shazam_x'') [''1.mp3'', ''2.mp3'']))"
      by blast
    then have "length cs = 2 \<and> recognized (trace w') =
             concat (map2 replicate cs [''/tmp/shazam_x/1.mp3'', ''/tmp/shazam_x/2.mp3''])"
      by (simp add: world0_def path_join_def)
    with r show ?thesis by blast
  qed
  have f: "\<exists>cs tracks w1. process_audio_file ?env2
           ''downloads/a.mp3'' ''out.txt'' 1 1 world0 = Inr (tracks, w1)
         \<and> length cs = 1
         \<and> recognized (trace w1) = concat (map2 replicate cs [''/tmp/shazam_x/1.mp3''])"
  proof -
    obtain tracks w1 where r: "process_audio_file ?env2 ''downloads/a.mp3'' ''out.txt'' 1 1 world0 =
                                 Inr (tracks, w1)"
      using process_audio_file_returns by blast
    have N: "ceil_div (length [0, 0::int]) SEGMENT_LENGTH = 1"
      by (simp add: ceil_div_def SEGMENT_LENGTH_def)
    have h: "open_ok ?env2 (opens world0) \<and> from_file ?env2 ''downloads/a.mp3'' = Some [0, 0]
        \<and> (\<forall>p. export_ok ?env2 p)
        \<and> process_audio_file ?env2 ''downloads/a.mp3'' ''out.txt'' 1 1 world0 = Inr (tracks, w1)"
      using r by (simp add: env_of_def)
    from segments_processed_in_index_order[where env = ?env2 and ?w0.0 = world0
        and audio_file = "''downloads/a.mp3''" and audio = "[0, 0]" and out = "''out.txt''"
        and file_index = 1 and total_files = 1 and tracks = tracks and ?w1.0 = w1] h
    obtain cs where "length cs = ceil_div (length [0, 0::int]) SEGMENT_LENGTH"
      "recognized (trace w1) = recognized (trace world0) @
               concat (map2 replicate cs
                 (map (\<lambda>i. path_join (tmp_dir ?env2 ''downloads/a.mp3'') (segment_name i))
                    [1..<Suc (ceil_div (length [0, 0::int]) SEGMENT_LENGTH)]))"
      by blast
    then have "length cs = 1 \<and> recognized (trace w1) = concat (map2 replicate cs [''/tmp/shazam_x/1.mp3''])"
      unfolding N by (simp add: world0_def env_of_def path_join_def segment_name_examples)
    with r show ?thesis by blast
  qed
  from a b c d e f show ?thesis by blast
qed

subsection \<open>Decode failure\<close>








subsection \<open>Write failures\<close>






end
